theory Spec2Isabelle
  imports Main "HOL-Library.Sublist" "HOL-Library.Char_ord" "HOL-Library.List_Lexorder"
begin

section \<open>Strings of the host language\<close>

text \<open>
  Source text, keys and translations are JavaScript strings. They are modelled as
  \<^typ>\<open>string\<close>, one \<^typ>\<open>char\<close> per code unit, which covers every text whose code
  units are below 256 (ASCII and Latin-1). On that range \<open>toLowerCase\<close> maps \<open>A\<close>..\<open>Z\<close>
  and the accented capitals \<open>0xC0\<close>..\<open>0xDE\<close> (the multiplication sign \<open>0xD7\<close> apart) to the
  code unit 32 above, and leaves every other code unit alone.
\<close>

definition toLowerCaseChar :: "char \<Rightarrow> char" where
  "toLowerCaseChar c =
     (let n = (of_char c :: nat)
      in if (65 \<le> n \<and> n \<le> 90) \<or> (192 \<le> n \<and> n \<le> 222 \<and> n \<noteq> 215)
         then char_of (n + 32) else c)"

definition toLowerCase :: "string \<Rightarrow> string" where
  "toLowerCase s = map toLowerCaseChar s"

text \<open>\<open>s.includes(m)\<close>: some suffix of \<open>s\<close> starts with \<open>m\<close>.\<close>

fun includesStr :: "string \<Rightarrow> string \<Rightarrow> bool" where
  "includesStr [] m = (m = [])"
| "includesStr (c # cs) m = (prefix m (c # cs) \<or> includesStr cs m)"

text \<open>
  \<open>s.substring(a, b)\<close> for non-negative integer arguments: both are clamped to the
  length, and swapped when the first exceeds the second.
\<close>

definition substring :: "string \<Rightarrow> nat \<Rightarrow> nat \<Rightarrow> string" where
  "substring s a b =
     (let a' = min a (length s);
          b' = min b (length s);
          lo = min a' b';
          hi = max a' b'
      in take (hi - lo) (drop lo s))"

section \<open>Extracted texts\<close>

record Translations =
  en :: string
  es :: string
  fr :: string
  de :: string
  ja :: string
  zh :: string

text \<open>The optional fields \<open>context\<close> and \<open>translations\<close> are \<open>None\<close> when absent.\<close>

record ExtractedText =
  key :: string
  text' :: string
  context' :: "string option"
  translations' :: "Translations option"

section \<open>The context of a call site\<close>

definition determineContext :: "string \<Rightarrow> nat \<Rightarrow> string" where
  "determineContext code matchIndex =
     (let start = nat (max 0 (int matchIndex - 50));
          end' = min (length code) (matchIndex + 50);
          ctx = toLowerCase (substring code start end')
      in if includesStr ctx ''<button'' \<or> includesStr ctx ''onclick'' then ''button''
         else if includesStr ctx ''placeholder'' then ''placeholder''
         else if includesStr ctx ''<h1'' \<or> includesStr ctx ''<h2'' \<or> includesStr ctx ''<h3''
           then ''heading''
         else if includesStr ctx ''<label'' then ''label''
         else if includesStr ctx ''<p>'' \<or> includesStr ctx ''<span'' then ''content''
         else ''general'')"

section \<open>The regular expression of a call site\<close>

text \<open>
  \<open>tCallRegex\<close> is \<^verbatim>\<open>/t\(['"`]([^'"`]+)['"`]\)/g\<close>: the letter \<open>t\<close>, an opening
  parenthesis, one quote character of any of the three styles, a non-empty run of
  characters that are not quote characters (the captured group), one quote character of
  any style, a closing parenthesis.
\<close>

definition isQuote :: "char \<Rightarrow> bool" where
  "isQuote c \<longleftrightarrow> c = CHR 0x27 \<or> c = CHR 0x22 \<or> c = CHR 0x60"

text \<open>
  A match anchored at the head of the given text: the captured group and the length of
  the match. The run is greedy, and giving characters back never helps, since the
  character after the run has to be a quote character and the run holds none.
\<close>

fun tCallRegex_matchAt :: "string \<Rightarrow> (string \<times> nat) option" where
  "tCallRegex_matchAt (c1 # c2 # q # rest) =
     (if c1 = CHR ''t'' \<and> c2 = CHR ''('' \<and> isQuote q then
        (let body = takeWhile (\<lambda>c. \<not> isQuote c) rest;
             after = dropWhile (\<lambda>c. \<not> isQuote c) rest
         in if body = [] then None
            else (case after of
                    q2 # p # _ \<Rightarrow>
                      if isQuote q2 \<and> p = CHR '')'' then Some (body, length body + 5)
                      else None
                  | _ \<Rightarrow> None))
      else None)"
| "tCallRegex_matchAt _ = None"

text \<open>
  \<open>tCallRegex.exec(code)\<close> with \<open>lastIndex = i\<close>: the leftmost match that starts at
  \<open>i\<close> or later, as its index, its captured group and the new \<open>lastIndex\<close> (the end of
  the match); \<open>None\<close> is the \<open>null\<close> that ends the loop.
\<close>

function tCallRegex_exec :: "string \<Rightarrow> nat \<Rightarrow> (nat \<times> string \<times> nat) option" where
  "tCallRegex_exec code i =
     (if length code < i then None
      else (case tCallRegex_matchAt (drop i code) of
              Some (k, n) \<Rightarrow> Some (i, k, i + n)
            | None \<Rightarrow> tCallRegex_exec code (Suc i)))"
  by pat_completeness auto
termination
  by (relation "measure (\<lambda>(code, i). Suc (length code) - i)") auto

declare tCallRegex_exec.simps [simp del]

lemma tCallRegex_matchAt_length:
  "tCallRegex_matchAt s = Some (k, n) \<Longrightarrow> 0 < n \<and> n \<le> length s"
proof (induction s rule: tCallRegex_matchAt.induct)
  case (1 c1 c2 q rest)
  let ?body = "takeWhile (\<lambda>c. \<not> isQuote c) rest"
  let ?after = "dropWhile (\<lambda>c. \<not> isQuote c) rest"
  from "1.prems" obtain q2 p more where after: "?after = q2 # p # more" and n: "n = length ?body + 5"
    by (auto simp: Let_def split: if_splits list.splits)
  have "length rest = length ?body + length ?after"
    by (metis length_append takeWhile_dropWhile_id)
  with after n show ?case by simp
qed simp_all

lemma tCallRegex_exec_bounds:
  "tCallRegex_exec code i = Some (idx, k, j) \<Longrightarrow> i \<le> idx \<and> idx < j \<and> j \<le> length code"
proof (induction code i rule: tCallRegex_exec.induct)
  case (1 code i)
  from "1.prems" have le: "\<not> length code < i"
    by (subst (asm) tCallRegex_exec.simps) (simp split: if_splits)
  show ?case
  proof (cases "tCallRegex_matchAt (drop i code)")
    case None
    with "1.prems" le have rec: "tCallRegex_exec code (Suc i) = Some (idx, k, j)"
      by (subst (asm) tCallRegex_exec.simps) simp
    from "1.IH"[OF le None rec] show ?thesis by simp
  next
    case (Some a)
    obtain k' n where a: "a = (k', n)" by (cases a)
    with Some "1.prems" le have eq: "idx = i" "j = i + n"
      by (subst (asm) tCallRegex_exec.simps, simp)+
    from tCallRegex_matchAt_length[OF Some[unfolded a]] have "0 < n" "n \<le> length code - i"
      by simp_all
    with le eq show ?thesis by simp
  qed
qed

text \<open>
  The \<open>while\<close> loop of \<open>extractLocalizationKeys\<close>: \<open>lastIndex\<close> is the state of the
  global regular expression, \<open>usedKeys\<close> the set of keys seen so far, \<open>extractedTexts\<close>
  the array being filled.
\<close>

function extractLoop ::
  "string \<Rightarrow> nat \<Rightarrow> string set \<Rightarrow> ExtractedText list \<Rightarrow> ExtractedText list" where
  "extractLoop code lastIndex usedKeys extractedTexts =
     (case tCallRegex_exec code lastIndex of
        None \<Rightarrow> extractedTexts
      | Some (index, k, lastIndex') \<Rightarrow>
          if k \<in> usedKeys then extractLoop code lastIndex' usedKeys extractedTexts
          else extractLoop code lastIndex' (insert k usedKeys)
                 (extractedTexts @
                  [\<lparr>key = k, text' = k, context' = Some (determineContext code index),
                    translations' = None\<rparr>]))"
  by pat_completeness auto
termination
proof (relation "measure (\<lambda>(code, lastIndex, usedKeys, extractedTexts). Suc (length code) - lastIndex)")
  show "wf (measure (\<lambda>(code, lastIndex, usedKeys, extractedTexts). Suc (length code) - lastIndex))"
    by simp
next
  fix code :: string and lastIndex :: nat and usedKeys :: "string set"
    and extractedTexts :: "ExtractedText list" and x2 x y x2a xa ya
  assume "tCallRegex_exec code lastIndex = Some x2" "(x, y) = x2" "(xa, ya) = y"
  then have "tCallRegex_exec code lastIndex = Some (x, xa, ya)" by simp
  from tCallRegex_exec_bounds[OF this]
  show "((code, ya, usedKeys, extractedTexts), code, lastIndex, usedKeys, extractedTexts)
        \<in> measure (\<lambda>(code, lastIndex, usedKeys, extractedTexts). Suc (length code) - lastIndex)"
    by auto
next
  fix code :: string and lastIndex :: nat and usedKeys :: "string set"
    and extractedTexts :: "ExtractedText list" and x2 x y x2a xa ya
  assume "tCallRegex_exec code lastIndex = Some x2" "(x, y) = x2" "(xa, ya) = y"
  then have "tCallRegex_exec code lastIndex = Some (x, xa, ya)" by simp
  from tCallRegex_exec_bounds[OF this]
  show "((code, ya, insert xa usedKeys,
          extractedTexts @
          [\<lparr>key = xa, text' = xa, context' = Some (determineContext code x),
            translations' = None\<rparr>]),
         code, lastIndex, usedKeys, extractedTexts)
        \<in> measure (\<lambda>(code, lastIndex, usedKeys, extractedTexts). Suc (length code) - lastIndex)"
    by auto
qed

declare extractLoop.simps [simp del]

text \<open>
  The values that \<open>match\<close> takes in that loop, in order: the call sites the regular
  expression finds from \<open>lastIndex\<close> on, each with its index and its captured group.
\<close>

function tCallMatches :: "string \<Rightarrow> nat \<Rightarrow> (nat \<times> string) list" where
  "tCallMatches code lastIndex =
     (case tCallRegex_exec code lastIndex of
        None \<Rightarrow> []
      | Some (index, k, lastIndex') \<Rightarrow> (index, k) # tCallMatches code lastIndex')"
  by pat_completeness auto
termination
proof (relation "measure (\<lambda>(code, lastIndex). Suc (length code) - lastIndex)")
  show "wf (measure (\<lambda>(code, lastIndex). Suc (length code) - lastIndex))" by simp
next
  fix code :: string and lastIndex :: nat and x2 x y xa ya
  assume "tCallRegex_exec code lastIndex = Some x2" "(x, y) = x2" "(xa, ya) = y"
  then have "tCallRegex_exec code lastIndex = Some (x, xa, ya)" by simp
  from tCallRegex_exec_bounds[OF this]
  show "((code, ya), code, lastIndex) \<in> measure (\<lambda>(code, lastIndex). Suc (length code) - lastIndex)"
    by auto
qed

declare tCallMatches.simps [simp del]

text \<open>The text holds a call site: the regular expression matches at some position.\<close>

fun hasTCall :: "string \<Rightarrow> bool" where
  "hasTCall [] = False"
| "hasTCall (c # cs) = (tCallRegex_matchAt (c # cs) \<noteq> None \<or> hasTCall cs)"

text \<open>
  First-seen order, in the words of the specification: every key once, where it first
  occurs; its later occurrences are dropped.
\<close>

fun firstSeenOrder :: "string list \<Rightarrow> string list" where
  "firstSeenOrder [] = []"
| "firstSeenOrder (k # ks) = k # firstSeenOrder (filter (\<lambda>x. x \<noteq> k) ks)"

section \<open>The translation service\<close>

text \<open>
  \<open>translateKeys\<close> posts the keys with their contexts to \<open>/api/extract-and-translate\<close>.
  The service is outside the program: the environment gives, for each request body, what
  \<open>fetch\<close> does. \<open>FetchRejects\<close> is a rejected promise (a transport failure);
  \<open>Response ok body\<close> carries the \<open>ok\<close> flag and the outcome of \<open>response.json()\<close>,
  \<open>None\<close> when parsing throws. In the parsed data, \<open>data_translations\<close> is \<open>None\<close>
  when the field is absent or falsy, else the table from key to translations, itself
  partial (a missing key reads as \<open>undefined\<close>; this takes the key not to name a
  member of \<open>Object.prototype\<close>, for which the lookup in a parsed object gives that
  member). A translation object that is present has its six fields, as its type says.
\<close>

type_synonym request = "(string \<times> string option) list"

datatype json_data =
  JsonData (data_success: bool) (data_translations: "(string \<rightharpoonup> Translations) option")

datatype fetch_outcome = FetchRejects | Response (ok: bool) (json: "json_data option")

section \<open>The localization table\<close>

record LocalizationEntry = Translations +
  entry_id :: string
  entry_key :: string

text \<open>
  The in-memory SQLite database, as far as the localization pipeline reads it: the rows of
  table \<open>localizations\<close> in insertion order (the columns \<open>created_at\<close> and \<open>updated_at\<close>
  are left out: nothing in the pipeline reads them) and, for table \<open>components\<close>,
  whether it exists and whether it has the column \<open>demo_props\<close>.
\<close>

record database =
  localizations :: "LocalizationEntry list"
  components :: "bool option"

datatype error =
    InvalidLocale string
  | InvalidField string
  | ConstraintFailed
  | NoSuchColumn
  | SqlJsUnavailable
  | DbIsNull

text \<open>
  What the program runs in: whether \<open>initSqlJs\<close> resolves, whether
  \<open>localStorage.setItem\<close> accepts the write, the translation service, and the clock
  (\<open>dateNow n\<close> is what call number \<open>n\<close> of \<open>Date.now()\<close> returns).
\<close>

record env =
  sqlJsLoads :: bool
  storageAccepts :: bool
  fetch :: "request \<Rightarrow> fetch_outcome"
  dateNow :: "nat \<Rightarrow> nat"

text \<open>
  The mutable state: the module variable \<open>db\<close> (\<open>None\<close> for \<open>null\<close>), the item
  \<open>localizations_db\<close> of \<open>localStorage\<close> (the exported database; export and reload
  are taken to be inverse), the request bodies posted so far, and the number of calls of
  \<open>Date.now()\<close> so far.
\<close>

record world =
  db :: "database option"
  localStorage :: "database option"
  requests :: "request list"
  dateNowCalls :: nat

subsection \<open>SQL statements on the table\<close>

text \<open>
  \<open>INSERT INTO localizations\<close>: column \<open>id\<close> is the primary key and column \<open>key\<close> is
  \<open>UNIQUE\<close>; a row that repeats either makes the statement throw and leaves the table as
  it was.
\<close>

definition sqlInsert :: "LocalizationEntry \<Rightarrow> database \<Rightarrow> error + database" where
  "sqlInsert entry d =
     (if entry_id entry \<in> entry_id ` set (localizations d)
         \<or> entry_key entry \<in> entry_key ` set (localizations d)
      then Inl ConstraintFailed
      else Inr (d\<lparr>localizations := localizations d @ [entry]\<rparr>))"

definition columns :: "string list" where
  "columns = [''id'', ''key'', ''en'', ''es'', ''fr'', ''de'', ''ja'', ''zh'']"

definition setField :: "string \<Rightarrow> string \<Rightarrow> LocalizationEntry \<Rightarrow> LocalizationEntry" where
  "setField field v r =
     (if field = ''id'' then r\<lparr>entry_id := v\<rparr>
      else if field = ''key'' then r\<lparr>entry_key := v\<rparr>
      else if field = ''en'' then r\<lparr>en := v\<rparr>
      else if field = ''es'' then r\<lparr>es := v\<rparr>
      else if field = ''fr'' then r\<lparr>fr := v\<rparr>
      else if field = ''de'' then r\<lparr>de := v\<rparr>
      else if field = ''ja'' then r\<lparr>ja := v\<rparr>
      else if field = ''zh'' then r\<lparr>zh := v\<rparr>
      else r)"

definition getField :: "string \<Rightarrow> LocalizationEntry \<Rightarrow> string" where
  "getField field r =
     (if field = ''id'' then entry_id r
      else if field = ''key'' then entry_key r
      else if field = ''en'' then en r
      else if field = ''es'' then es r
      else if field = ''fr'' then fr r
      else if field = ''de'' then de r
      else if field = ''ja'' then ja r
      else if field = ''zh'' then zh r
      else [])"

text \<open>
  \<open>UPDATE localizations SET field = ? WHERE id = ?\<close>: a column the table does not have
  throws; so does giving the row a \<open>key\<close> or an \<open>id\<close> that another row holds. Otherwise
  the row with that \<open>id\<close>, if there is one, is changed.
\<close>

definition sqlUpdate :: "string \<Rightarrow> string \<Rightarrow> string \<Rightarrow> database \<Rightarrow> error + database" where
  "sqlUpdate field v i d =
     (let rows = localizations d;
          hit = (\<exists>r \<in> set rows. entry_id r = i)
      in if field \<notin> set columns then Inl NoSuchColumn
         else if hit \<and> field = ''key'' \<and> (\<exists>r \<in> set rows. entry_id r \<noteq> i \<and> entry_key r = v)
           then Inl ConstraintFailed
         else if hit \<and> field = ''id'' \<and> (\<exists>r \<in> set rows. entry_id r \<noteq> i \<and> entry_id r = v)
           then Inl ConstraintFailed
         else Inr (d\<lparr>localizations :=
                      map (\<lambda>r. if entry_id r = i then setField field v r else r) rows\<rparr>))"

text \<open>\<open>DELETE FROM localizations WHERE id = ?\<close>\<close>

definition sqlDelete :: "string \<Rightarrow> database \<Rightarrow> database" where
  "sqlDelete i d = d\<lparr>localizations := filter (\<lambda>r. entry_id r \<noteq> i) (localizations d)\<rparr>"

text \<open>\<open>SELECT key, locale as translation FROM localizations\<close>\<close>

definition sqlSelectKeyAnd :: "string \<Rightarrow> database \<Rightarrow> error + (string \<times> string) list" where
  "sqlSelectKeyAnd locale d =
     (if locale \<notin> set columns then Inl NoSuchColumn
      else Inr (map (\<lambda>r. (entry_key r, getField locale r)) (localizations d)))"

subsection \<open>Opening the database\<close>

definition saveDatabaseToLocalStorage :: "env \<Rightarrow> world \<Rightarrow> world" where
  "saveDatabaseToLocalStorage env w =
     (case db w of
        None \<Rightarrow> w
      | Some d \<Rightarrow> if storageAccepts env then w\<lparr>localStorage := Some d\<rparr> else w)"

text \<open>
  The rows of \<open>seedInitialData\<close>. A text with code units above 255 (the Japanese and the
  Chinese ones) stands here as its UTF-8 bytes; no definition looks inside it.
\<close>

definition initialData :: "LocalizationEntry list" where
  "initialData =
     [
      \<lparr>en = ''Welcome to our app'',
       es = ''Bienvenido a nuestra aplicaci'' @ [CHR 0xF3] @ ''n'',
       fr = ''Bienvenue dans notre application'',
       de = ''Willkommen in unserer App'',
       ja = [CHR 0xE7, CHR 0xA7, CHR 0x81, CHR 0xE3, CHR 0x81, CHR 0x9F, CHR 0xE3, CHR 0x81,
          CHR 0xA1, CHR 0xE3, CHR 0x81, CHR 0xAE, CHR 0xE3, CHR 0x82, CHR 0xA2, CHR 0xE3,
          CHR 0x83, CHR 0x97, CHR 0xE3, CHR 0x83, CHR 0xAA, CHR 0xE3, CHR 0x81, CHR 0xB8,
          CHR 0xE3, CHR 0x82, CHR 0x88, CHR 0xE3, CHR 0x81, CHR 0x86, CHR 0xE3, CHR 0x81,
          CHR 0x93, CHR 0xE3, CHR 0x81, CHR 0x9D],
       zh = [CHR 0xE6, CHR 0xAC, CHR 0xA2, CHR 0xE8, CHR 0xBF, CHR 0x8E, CHR 0xE4, CHR 0xBD,
          CHR 0xBF, CHR 0xE7, CHR 0x94, CHR 0xA8, CHR 0xE6, CHR 0x88, CHR 0x91, CHR 0xE4,
          CHR 0xBB, CHR 0xAC, CHR 0xE7, CHR 0x9A, CHR 0x84, CHR 0xE5, CHR 0xBA, CHR 0x94,
          CHR 0xE7, CHR 0x94, CHR 0xA8],
       entry_id = ''1'',
       entry_key = ''welcome.title''\<rparr>,
      \<lparr>en = ''Submit'',
       es = ''Enviar'',
       fr = ''Soumettre'',
       de = ''Absenden'',
       ja = [CHR 0xE9, CHR 0x80, CHR 0x81, CHR 0xE4, CHR 0xBF, CHR 0xA1],
       zh = [CHR 0xE6, CHR 0x8F, CHR 0x90, CHR 0xE4, CHR 0xBA, CHR 0xA4],
       entry_id = ''2'',
       entry_key = ''button.submit''\<rparr>,
      \<lparr>en = ''Please check your input'',
       es = ''Por favor verifica tu entrada'',
       fr = ''Veuillez v'' @ [CHR 0xE9] @ ''rifier votre saisie'',
       de = ''Bitte '' @ [CHR 0xFC] @ ''berpr'' @ [CHR 0xFC] @ ''fen Sie Ihre Eingabe'',
       ja = [CHR 0xE5, CHR 0x85, CHR 0xA5, CHR 0xE5, CHR 0x8A, CHR 0x9B, CHR 0xE5, CHR 0x86,
          CHR 0x85, CHR 0xE5, CHR 0xAE, CHR 0xB9, CHR 0xE3, CHR 0x82, CHR 0x92, CHR 0xE7,
          CHR 0xA2, CHR 0xBA, CHR 0xE8, CHR 0xAA, CHR 0x8D, CHR 0xE3, CHR 0x81, CHR 0x97,
          CHR 0xE3, CHR 0x81, CHR 0xA6, CHR 0xE3, CHR 0x81, CHR 0x8F, CHR 0xE3, CHR 0x81,
          CHR 0xA0, CHR 0xE3, CHR 0x81, CHR 0x95, CHR 0xE3, CHR 0x81, CHR 0x84],
       zh = [CHR 0xE8, CHR 0xAF, CHR 0xB7, CHR 0xE6, CHR 0xA3, CHR 0x80, CHR 0xE6, CHR 0x9F,
          CHR 0xA5, CHR 0xE6, CHR 0x82, CHR 0xA8, CHR 0xE7, CHR 0x9A, CHR 0x84, CHR 0xE8,
          CHR 0xBE, CHR 0x93, CHR 0xE5, CHR 0x85, CHR 0xA5],
       entry_id = ''3'',
       entry_key = ''error.validation''\<rparr>,
      \<lparr>en = ''Home'',
       es = ''Inicio'',
       fr = ''Accueil'',
       de = ''Startseite'',
       ja = [CHR 0xE3, CHR 0x83, CHR 0x9B, CHR 0xE3, CHR 0x83, CHR 0xBC, CHR 0xE3, CHR 0x83,
          CHR 0xA0],
       zh = [CHR 0xE9, CHR 0xA6, CHR 0x96, CHR 0xE9, CHR 0xA1, CHR 0xB5],
       entry_id = ''4'',
       entry_key = ''navigation.home''\<rparr>,
      \<lparr>en = ''Email Address'',
       es = ''Direcci'' @ [CHR 0xF3] @ ''n de correo'',
       fr = ''Adresse e-mail'',
       de = ''E-Mail-Adresse'',
       ja = [CHR 0xE3, CHR 0x83, CHR 0xA1, CHR 0xE3, CHR 0x83, CHR 0xBC, CHR 0xE3, CHR 0x83,
          CHR 0xAB, CHR 0xE3, CHR 0x82, CHR 0xA2, CHR 0xE3, CHR 0x83, CHR 0x89, CHR 0xE3,
          CHR 0x83, CHR 0xAC, CHR 0xE3, CHR 0x82, CHR 0xB9],
       zh = [CHR 0xE7, CHR 0x94, CHR 0xB5, CHR 0xE5, CHR 0xAD, CHR 0x90, CHR 0xE9, CHR 0x82,
          CHR 0xAE, CHR 0xE4, CHR 0xBB, CHR 0xB6, CHR 0xE5, CHR 0x9C, CHR 0xB0, CHR 0xE5,
          CHR 0x9D, CHR 0x80],
       entry_id = ''5'',
       entry_key = ''form.email''\<rparr>,
      \<lparr>en = ''Click me'',
       es = ''Haz clic aqu'' @ [CHR 0xED],
       fr = ''Cliquez-moi'',
       de = ''Klick mich'',
       ja = [CHR 0xE3, CHR 0x82, CHR 0xAF, CHR 0xE3, CHR 0x83, CHR 0xAA, CHR 0xE3, CHR 0x83,
          CHR 0x83, CHR 0xE3, CHR 0x82, CHR 0xAF, CHR 0xE3, CHR 0x81, CHR 0x97, CHR 0xE3,
          CHR 0x81, CHR 0xA6, CHR 0xE3, CHR 0x81, CHR 0x8F, CHR 0xE3, CHR 0x81, CHR 0xA0,
          CHR 0xE3, CHR 0x81, CHR 0x95, CHR 0xE3, CHR 0x81, CHR 0x84],
       zh = [CHR 0xE7, CHR 0x82, CHR 0xB9, CHR 0xE5, CHR 0x87, CHR 0xBB, CHR 0xE6, CHR 0x88,
          CHR 0x91],
       entry_id = ''6'',
       entry_key = ''click_me''\<rparr>,
      \<lparr>en = ''Demo Title'',
       es = ''T'' @ [CHR 0xED] @ ''tulo de demostraci'' @ [CHR 0xF3] @ ''n'',
       fr = ''Titre de d'' @ [CHR 0xE9] @ ''mo'',
       de = ''Demo-Titel'',
       ja = [CHR 0xE3, CHR 0x83, CHR 0x87, CHR 0xE3, CHR 0x83, CHR 0xA2, CHR 0xE3, CHR 0x82,
          CHR 0xBF, CHR 0xE3, CHR 0x82, CHR 0xA4, CHR 0xE3, CHR 0x83, CHR 0x88, CHR 0xE3,
          CHR 0x83, CHR 0xAB],
       zh = [CHR 0xE6, CHR 0xBC, CHR 0x94, CHR 0xE7, CHR 0xA4, CHR 0xBA, CHR 0xE6, CHR 0xA0,
          CHR 0x87, CHR 0xE9, CHR 0xA2, CHR 0x98],
       entry_id = ''7'',
       entry_key = ''demo_title''\<rparr>,
      \<lparr>en = ''This is a demo description.'',
       es = ''Esta es una descripci'' @ [CHR 0xF3] @ ''n de demostraci'' @ [CHR 0xF3] @ ''n.'',
       fr = ''Ceci est une description de d'' @ [CHR 0xE9] @ ''mo.'',
       de = ''Dies ist eine Demo-Beschreibung.'',
       ja = [CHR 0xE3, CHR 0x81, CHR 0x93, CHR 0xE3, CHR 0x82, CHR 0x8C, CHR 0xE3, CHR 0x81,
          CHR 0xAF, CHR 0xE3, CHR 0x83, CHR 0x87, CHR 0xE3, CHR 0x83, CHR 0xA2, CHR 0xE3,
          CHR 0x81, CHR 0xAE, CHR 0xE8, CHR 0xAA, CHR 0xAC, CHR 0xE6, CHR 0x98, CHR 0x8E,
          CHR 0xE3, CHR 0x81, CHR 0xA7, CHR 0xE3, CHR 0x81, CHR 0x99, CHR 0xE3, CHR 0x80,
          CHR 0x82],
       zh = [CHR 0xE8, CHR 0xBF, CHR 0x99, CHR 0xE6, CHR 0x98, CHR 0xAF, CHR 0xE4, CHR 0xB8,
          CHR 0x80, CHR 0xE4, CHR 0xB8, CHR 0xAA, CHR 0xE6, CHR 0xBC, CHR 0x94, CHR 0xE7,
          CHR 0xA4, CHR 0xBA, CHR 0xE6, CHR 0x8F, CHR 0x8F, CHR 0xE8, CHR 0xBF, CHR 0xB0,
          CHR 0xE3, CHR 0x80, CHR 0x82],
       entry_id = ''8'',
       entry_key = ''demo_description''\<rparr>,
      \<lparr>en = ''Enter text here...'',
       es = ''Ingrese texto aqu'' @ [CHR 0xED] @ ''...'',
       fr = ''Entrez le texte ici...'',
       de = ''Text hier eingeben...'',
       ja = [CHR 0xE3, CHR 0x81, CHR 0x93, CHR 0xE3, CHR 0x81, CHR 0x93, CHR 0xE3, CHR 0x81,
          CHR 0xAB, CHR 0xE3, CHR 0x83, CHR 0x86, CHR 0xE3, CHR 0x82, CHR 0xAD, CHR 0xE3,
          CHR 0x82, CHR 0xB9, CHR 0xE3, CHR 0x83, CHR 0x88, CHR 0xE3, CHR 0x82, CHR 0x92,
          CHR 0xE5, CHR 0x85, CHR 0xA5, CHR 0xE5, CHR 0x8A, CHR 0x9B] @ ''...'',
       zh = [CHR 0xE5, CHR 0x9C, CHR 0xA8, CHR 0xE6, CHR 0xAD, CHR 0xA4, CHR 0xE8, CHR 0xBE,
          CHR 0x93, CHR 0xE5, CHR 0x85, CHR 0xA5, CHR 0xE6, CHR 0x96, CHR 0x87, CHR 0xE6,
          CHR 0x9C, CHR 0xAC] @ ''...'',
       entry_id = ''9'',
       entry_key = ''enter_text_here''\<rparr>,
      \<lparr>en = ''Demo text'',
       es = ''Texto de demostraci'' @ [CHR 0xF3] @ ''n'',
       fr = ''Texte de d'' @ [CHR 0xE9] @ ''mo'',
       de = ''Demo-Text'',
       ja = [CHR 0xE3, CHR 0x83, CHR 0x87, CHR 0xE3, CHR 0x83, CHR 0xA2, CHR 0xE3, CHR 0x83,
          CHR 0x86, CHR 0xE3, CHR 0x82, CHR 0xAD, CHR 0xE3, CHR 0x82, CHR 0xB9, CHR 0xE3,
          CHR 0x83, CHR 0x88],
       zh = [CHR 0xE6, CHR 0xBC, CHR 0x94, CHR 0xE7, CHR 0xA4, CHR 0xBA, CHR 0xE6, CHR 0x96,
          CHR 0x87, CHR 0xE6, CHR 0x9C, CHR 0xAC],
       entry_id = ''10'',
       entry_key = ''demo_text''\<rparr>,
      \<lparr>en = ''Demo Name'',
       es = ''Nombre de Demostraci'' @ [CHR 0xF3] @ ''n'',
       fr = ''Nom de D'' @ [CHR 0xE9] @ ''mo'',
       de = ''Demo-Name'',
       ja = [CHR 0xE3, CHR 0x83, CHR 0x87, CHR 0xE3, CHR 0x83, CHR 0xA2, CHR 0xE5, CHR 0x90,
          CHR 0x8D],
       zh = [CHR 0xE6, CHR 0xBC, CHR 0x94, CHR 0xE7, CHR 0xA4, CHR 0xBA, CHR 0xE5, CHR 0x90,
          CHR 0x8D, CHR 0xE7, CHR 0xA7, CHR 0xB0],
       entry_id = ''11'',
       entry_key = ''demo_name''\<rparr>,
      \<lparr>en = ''Demo Value'',
       es = ''Valor de Demostraci'' @ [CHR 0xF3] @ ''n'',
       fr = ''Valeur de D'' @ [CHR 0xE9] @ ''mo'',
       de = ''Demo-Wert'',
       ja = [CHR 0xE3, CHR 0x83, CHR 0x87, CHR 0xE3, CHR 0x83, CHR 0xA2, CHR 0xE5, CHR 0x80,
          CHR 0xA4],
       zh = [CHR 0xE6, CHR 0xBC, CHR 0x94, CHR 0xE7, CHR 0xA4, CHR 0xBA, CHR 0xE5, CHR 0x80,
          CHR 0xBC],
       entry_id = ''12'',
       entry_key = ''demo_value''\<rparr>,
      \<lparr>en = ''Save Document'',
       es = ''Guardar Documento'',
       fr = ''Enregistrer le Document'',
       de = ''Dokument Speichern'',
       ja = [CHR 0xE3, CHR 0x83, CHR 0x89, CHR 0xE3, CHR 0x82, CHR 0xAD, CHR 0xE3, CHR 0x83,
          CHR 0xA5, CHR 0xE3, CHR 0x83, CHR 0xA1, CHR 0xE3, CHR 0x83, CHR 0xB3, CHR 0xE3,
          CHR 0x83, CHR 0x88, CHR 0xE3, CHR 0x82, CHR 0x92, CHR 0xE4, CHR 0xBF, CHR 0x9D,
          CHR 0xE5, CHR 0xAD, CHR 0x98],
       zh = [CHR 0xE4, CHR 0xBF, CHR 0x9D, CHR 0xE5, CHR 0xAD, CHR 0x98, CHR 0xE6, CHR 0x96,
          CHR 0x87, CHR 0xE6, CHR 0xA1, CHR 0xA3],
       entry_id = ''13'',
       entry_key = ''save_document''\<rparr>
     ]"

text \<open>
  The loop of \<open>seedInitialData\<close> on the open database. A failing insert throws out of the
  loop and leaves the rows inserted so far.
\<close>

fun seedInitialData :: "LocalizationEntry list \<Rightarrow> database \<Rightarrow> error option \<times> database" where
  "seedInitialData [] d = (None, d)"
| "seedInitialData (entry # rest) d =
     (case sqlInsert entry d of
        Inl e \<Rightarrow> (Some e, d)
      | Inr d' \<Rightarrow> seedInitialData rest d')"

definition initializeDatabase :: "env \<Rightarrow> world \<Rightarrow> (error + unit) \<times> world" where
  "initializeDatabase env w =
     (case db w of
        Some _ \<Rightarrow> (Inr (), w)
      | None \<Rightarrow>
          if \<not> sqlJsLoads env then (Inl SqlJsUnavailable, w)
          else
            (case localStorage w of
               Some savedDb \<Rightarrow>
                 (case components savedDb of
                    Some True \<Rightarrow>
                      (Inr (), saveDatabaseToLocalStorage env (w\<lparr>db := Some savedDb\<rparr>))
                  | Some False \<Rightarrow>
                      (Inr (),
                       saveDatabaseToLocalStorage env
                         (saveDatabaseToLocalStorage env
                            (w\<lparr>db := Some (savedDb\<lparr>components := Some True\<rparr>)\<rparr>)))
                  | None \<Rightarrow>
                      (Inr (),
                       saveDatabaseToLocalStorage env
                         (w\<lparr>db := Some (savedDb\<lparr>components := Some True\<rparr>)\<rparr>)))
             | None \<Rightarrow>
                 (case seedInitialData initialData \<lparr>localizations = [], components = None\<rparr> of
                    (Some e, d) \<Rightarrow> (Inl e, w\<lparr>db := Some d\<rparr>)
                  | (None, d) \<Rightarrow>
                      (Inr (),
                       saveDatabaseToLocalStorage env
                         (w\<lparr>db := Some (d\<lparr>components := Some True\<rparr>)\<rparr>)))))"

text \<open>
  The two lines that open every exported function of the module:
  \<open>if (!db) await initializeDatabase()\<close>, then the use of \<open>db!\<close>.
\<close>

definition openDb :: "env \<Rightarrow> world \<Rightarrow> (error + database) \<times> world" where
  "openDb env w =
     (case db w of
        Some d \<Rightarrow> (Inr d, w)
      | None \<Rightarrow>
          (case initializeDatabase env w of
             (Inl e, w') \<Rightarrow> (Inl e, w')
           | (Inr _, w') \<Rightarrow>
               (case db w' of Some d \<Rightarrow> (Inr d, w') | None \<Rightarrow> (Inl DbIsNull, w'))))"

subsection \<open>The exported functions\<close>

definition getAllLocalizations :: "env \<Rightarrow> world \<Rightarrow> (error + LocalizationEntry list) \<times> world" where
  "getAllLocalizations env w =
     (case openDb env w of
        (Inl e, w') \<Rightarrow> (Inl e, w')
      | (Inr d, w') \<Rightarrow> (Inr (sort_key entry_key (localizations d)), w'))"

definition validFields :: "string list" where
  "validFields = [''key'', ''en'', ''es'', ''fr'', ''de'', ''ja'', ''zh'']"

definition updateLocalization ::
  "env \<Rightarrow> string \<Rightarrow> string \<Rightarrow> string \<Rightarrow> world \<Rightarrow> (error + unit) \<times> world" where
  "updateLocalization env i field v w =
     (case openDb env w of
        (Inl e, w') \<Rightarrow> (Inl e, w')
      | (Inr d, w') \<Rightarrow>
          if field \<notin> set validFields then (Inl (InvalidField field), w')
          else (case sqlUpdate field v i d of
                  Inl e \<Rightarrow> (Inl e, w')
                | Inr d' \<Rightarrow> (Inr (), saveDatabaseToLocalStorage env (w'\<lparr>db := Some d'\<rparr>))))"

definition createLocalization :: "env \<Rightarrow> LocalizationEntry \<Rightarrow> world \<Rightarrow> (error + unit) \<times> world" where
  "createLocalization env entry w =
     (case openDb env w of
        (Inl e, w') \<Rightarrow> (Inl e, w')
      | (Inr d, w') \<Rightarrow>
          (case sqlInsert entry d of
             Inl e \<Rightarrow> (Inl e, w')
           | Inr d' \<Rightarrow> (Inr (), saveDatabaseToLocalStorage env (w'\<lparr>db := Some d'\<rparr>))))"

definition deleteLocalization :: "env \<Rightarrow> string \<Rightarrow> world \<Rightarrow> (error + unit) \<times> world" where
  "deleteLocalization env i w =
     (case openDb env w of
        (Inl e, w') \<Rightarrow> (Inl e, w')
      | (Inr d, w') \<Rightarrow>
          (Inr (), saveDatabaseToLocalStorage env (w'\<lparr>db := Some (sqlDelete i d)\<rparr>)))"

definition validLocales :: "string list" where
  "validLocales = [''en'', ''es'', ''fr'', ''de'', ''ja'', ''zh'']"

text \<open>
  The \<open>reduce\<close> of \<open>getTranslations\<close> fills a plain object row by row with
  \<^verbatim>\<open>acc[key] = text || ""\<close>, a later row replacing an earlier one with the same key. The
  object is read as the map of its own properties. Assigning a string to the property
  \<^verbatim>\<open>__proto__\<close> of a plain object creates no property (the assignment goes to the
  prototype setter, which ignores a value that is no object), so a row whose key is
  \<^verbatim>\<open>__proto__\<close> leaves the object as it was.
\<close>

definition objectAssign :: "(string \<rightharpoonup> string) \<Rightarrow> string \<Rightarrow> string \<Rightarrow> (string \<rightharpoonup> string)" where
  "objectAssign acc k v = (if k = ''__proto__'' then acc else acc(k \<mapsto> v))"

definition getTranslations ::
  "env \<Rightarrow> string \<Rightarrow> world \<Rightarrow> (error + (string \<rightharpoonup> string)) \<times> world" where
  "getTranslations env locale w =
     (case openDb env w of
        (Inl e, w') \<Rightarrow> (Inl e, w')
      | (Inr d, w') \<Rightarrow>
          if locale \<notin> set validLocales then (Inl (InvalidLocale locale), w')
          else (case sqlSelectKeyAnd locale d of
                  Inl e \<Rightarrow> (Inl e, w')
                | Inr rows \<Rightarrow>
                    (Inr (foldl (\<lambda>acc row. objectAssign acc (fst row) (snd row)) Map.empty rows),
                     w')))"

subsection \<open>The methods of class \<open>LocalizationDB\<close>\<close>

definition LocalizationDB_init :: "env \<Rightarrow> world \<Rightarrow> (error + unit) \<times> world" where
  "LocalizationDB_init env w =
     (case db w of Some _ \<Rightarrow> (Inr (), w) | None \<Rightarrow> initializeDatabase env w)"

definition LocalizationDB_getAll ::
  "env \<Rightarrow> world \<Rightarrow> (error + LocalizationEntry list) \<times> world" where
  "LocalizationDB_getAll env w =
     (case LocalizationDB_init env w of
        (Inl e, w') \<Rightarrow> (Inl e, w')
      | (Inr _, w') \<Rightarrow> getAllLocalizations env w')"

definition LocalizationDB_create ::
  "env \<Rightarrow> LocalizationEntry \<Rightarrow> world \<Rightarrow> (error + unit) \<times> world" where
  "LocalizationDB_create env entry w =
     (case LocalizationDB_init env w of
        (Inl e, w') \<Rightarrow> (Inl e, w')
      | (Inr _, w') \<Rightarrow> createLocalization env entry w')"

definition LocalizationDB_update ::
  "env \<Rightarrow> string \<Rightarrow> string \<Rightarrow> string \<Rightarrow> world \<Rightarrow> (error + unit) \<times> world" where
  "LocalizationDB_update env i field v w =
     (case LocalizationDB_init env w of
        (Inl e, w') \<Rightarrow> (Inl e, w')
      | (Inr _, w') \<Rightarrow> updateLocalization env i field v w')"

definition LocalizationDB_delete :: "env \<Rightarrow> string \<Rightarrow> world \<Rightarrow> (error + unit) \<times> world" where
  "LocalizationDB_delete env i w =
     (case LocalizationDB_init env w of
        (Inl e, w') \<Rightarrow> (Inl e, w')
      | (Inr _, w') \<Rightarrow> deleteLocalization env i w')"

definition LocalizationDB_getTranslations ::
  "env \<Rightarrow> string \<Rightarrow> world \<Rightarrow> (error + (string \<rightharpoonup> string)) \<times> world" where
  "LocalizationDB_getTranslations env locale w =
     (case LocalizationDB_init env w of
        (Inl e, w') \<Rightarrow> (Inl e, w')
      | (Inr _, w') \<Rightarrow> getTranslations env locale w')"

section \<open>The pipeline\<close>

definition translateKeys :: "env \<Rightarrow> ExtractedText list \<Rightarrow> world \<Rightarrow> ExtractedText list \<times> world" where
  "translateKeys env extractedTexts w =
     (let body = map (\<lambda>e. (key e, context' e)) extractedTexts;
          w' = w\<lparr>requests := requests w @ [body]\<rparr>
      in case fetch env body of
           FetchRejects \<Rightarrow> (extractedTexts, w')
         | Response isOk parsed \<Rightarrow>
             if \<not> isOk then (extractedTexts, w')
             else (case parsed of
                     None \<Rightarrow> (extractedTexts, w')
                   | Some dat \<Rightarrow>
                       (case data_translations dat of
                          Some table \<Rightarrow>
                            if data_success dat
                            then (map (\<lambda>extracted. extracted\<lparr>translations' := table (key extracted)\<rparr>)
                                    extractedTexts, w')
                            else (extractedTexts, w')
                        | None \<Rightarrow> (extractedTexts, w'))))"

definition extractLocalizationKeys :: "env \<Rightarrow> string \<Rightarrow> world \<Rightarrow> ExtractedText list \<times> world" where
  "extractLocalizationKeys env componentCode w =
     (let extractedTexts = extractLoop componentCode 0 {} []
      in if length extractedTexts > 0 then translateKeys env extractedTexts w
         else (extractedTexts, w))"

definition Date_now :: "env \<Rightarrow> world \<Rightarrow> nat \<times> world" where
  "Date_now env w = (dateNow env (dateNowCalls w), w\<lparr>dateNowCalls := Suc (dateNowCalls w)\<rparr>)"

text \<open>A number inside a template literal: its decimal digits.\<close>

fun numberToString :: "nat \<Rightarrow> string" where
  "numberToString n =
     (if n < 10 then [char_of (48 + n)]
      else numberToString (n div 10) @ [char_of (48 + n mod 10)])"

declare numberToString.simps [simp del]

text \<open>
  The \<open>for\<close> loop of \<open>processAndSaveExtractedTexts\<close>. An error thrown inside the \<open>try\<close>
  block is caught and logged, and the loop goes on with the next text.
\<close>

fun processLoop ::
  "env \<Rightarrow> string \<Rightarrow> ExtractedText list \<Rightarrow> string list \<Rightarrow> world \<Rightarrow> string list \<times> world" where
  "processLoop env componentId [] saved w = (saved, w)"
| "processLoop env componentId (extracted # rest) saved w =
     (case LocalizationDB_getAll env w of
        (Inl e, w1) \<Rightarrow> processLoop env componentId rest saved w1
      | (Inr existingTranslations, w1) \<Rightarrow>
          (case find (\<lambda>t. entry_key t = key extracted) existingTranslations of
             None \<Rightarrow>
               (case translations' extracted of
                  None \<Rightarrow> processLoop env componentId rest saved w1
                | Some tr \<Rightarrow>
                    (let (now, w2) = Date_now env w1;
                         newEntry =
                           \<lparr>en = en tr, es = es tr, fr = fr tr, de = de tr, ja = ja tr, zh = zh tr,
                            entry_id = componentId @ ''_'' @ key extracted @ ''_'' @ numberToString now,
                            entry_key = key extracted\<rparr>
                     in case LocalizationDB_create env newEntry w2 of
                          (Inl e, w3) \<Rightarrow> processLoop env componentId rest saved w3
                        | (Inr _, w3) \<Rightarrow>
                            processLoop env componentId rest (saved @ [key extracted]) w3))
           | Some existing \<Rightarrow> processLoop env componentId rest (saved @ [key extracted]) w1))"

declare processLoop.simps(2) [simp del]

definition processAndSaveExtractedTexts ::
  "env \<Rightarrow> ExtractedText list \<Rightarrow> string \<Rightarrow> world \<Rightarrow> string list \<times> world" where
  "processAndSaveExtractedTexts env extractedTexts componentId w =
     processLoop env componentId extractedTexts [] w"

subsection \<open>Other invocations at the suspension points\<close>

text \<open>
  Execution is single-threaded and event-driven, and every \<open>await\<close> is a suspension
  point: while one invocation of \<open>processAndSaveExtractedTexts\<close> waits for
  \<open>db.getAll()\<close> or for \<open>db.create()\<close>, the other invocations that are in flight
  (a second component being processed, say) run on the same module variable \<open>db\<close>.
  What they do to the table is a sequence of calls of the store.
\<close>

datatype storeCall =
    CreateCall LocalizationEntry
  | UpdateCall string string string
  | DeleteCall string

fun runStoreCall :: "env \<Rightarrow> storeCall \<Rightarrow> world \<Rightarrow> world" where
  "runStoreCall env (CreateCall entry) w = snd (LocalizationDB_create env entry w)"
| "runStoreCall env (UpdateCall i field v) w = snd (LocalizationDB_update env i field v w)"
| "runStoreCall env (DeleteCall i) w = snd (LocalizationDB_delete env i w)"

text \<open>
  A schedule lists, for the successive suspension points of one invocation, the calls of
  the others that run there; once it is used up, the invocation runs alone.
\<close>

type_synonym schedule = "storeCall list list"

fun suspend :: "env \<Rightarrow> schedule \<Rightarrow> world \<Rightarrow> schedule \<times> world" where
  "suspend env [] w = ([], w)"
| "suspend env (calls # sched) w = (sched, foldl (\<lambda>w' c. runStoreCall env c w') w calls)"

text \<open>
  The \<open>for\<close> loop of \<open>processAndSaveExtractedTexts\<close> among other invocations. They
  run before the query of \<open>db.getAll()\<close> is executed (at its \<open>await this.init()\<close>),
  and between that query and the insert of \<open>db.create()\<close> (while the result of
  \<open>getAll\<close> is delivered and at the \<open>await this.init()\<close> of \<open>create\<close>). What runs
  after the query of an iteration that does not reach \<open>db.create()\<close>, or after the
  insert, falls to the suspension point that opens the next iteration.
\<close>

fun processLoopInterleaved ::
  "env \<Rightarrow> string \<Rightarrow> schedule \<Rightarrow> ExtractedText list \<Rightarrow> string list \<Rightarrow> world
   \<Rightarrow> string list \<times> world" where
  "processLoopInterleaved env componentId sched [] saved w = (saved, w)"
| "processLoopInterleaved env componentId sched (extracted # rest) saved w =
     (let (sched1, w0) = suspend env sched w
      in case LocalizationDB_getAll env w0 of
           (Inl e, w1) \<Rightarrow> processLoopInterleaved env componentId sched1 rest saved w1
         | (Inr existingTranslations, w1) \<Rightarrow>
             (case find (\<lambda>t. entry_key t = key extracted) existingTranslations of
                None \<Rightarrow>
                  (case translations' extracted of
                     None \<Rightarrow> processLoopInterleaved env componentId sched1 rest saved w1
                   | Some tr \<Rightarrow>
                       (let (now, w2) = Date_now env w1;
                            newEntry =
                              \<lparr>en = en tr, es = es tr, fr = fr tr, de = de tr, ja = ja tr,
                               zh = zh tr,
                               entry_id = componentId @ ''_'' @ key extracted @ ''_''
                                          @ numberToString now,
                               entry_key = key extracted\<rparr>;
                            (sched2, w3) = suspend env sched1 w2
                        in case LocalizationDB_create env newEntry w3 of
                             (Inl e, w4) \<Rightarrow>
                               processLoopInterleaved env componentId sched2 rest saved w4
                           | (Inr _, w4) \<Rightarrow>
                               processLoopInterleaved env componentId sched2 rest
                                 (saved @ [key extracted]) w4))
              | Some existing \<Rightarrow>
                  processLoopInterleaved env componentId sched1 rest (saved @ [key extracted]) w1))"

declare processLoopInterleaved.simps(2) [simp del]


subsection \<open>The interface added to a component\<close>

definition isWordChar :: "char \<Rightarrow> bool" where
  "isWordChar c \<longleftrightarrow>
     (let n = (of_char c :: nat)
      in (48 \<le> n \<and> n \<le> 57) \<or> (65 \<le> n \<and> n \<le> 90) \<or> n = 95 \<or> (97 \<le> n \<and> n \<le> 122))"

text \<open>
  The first match of \<^verbatim>\<open>/export default function (\w+)/\<close>: its captured group, the
  longest run of word characters after the leftmost \<open>export default function \<close> that one
  follows.
\<close>

fun exportRegex_match :: "string \<Rightarrow> string option" where
  "exportRegex_match [] = None"
| "exportRegex_match (c # cs) =
     (if prefix ''export default function '' (c # cs)
         \<and> takeWhile isWordChar (drop 24 (c # cs)) \<noteq> []
      then Some (takeWhile isWordChar (drop 24 (c # cs)))
      else exportRegex_match cs)"

text \<open>
  \<open>s.replace(pat, repl)\<close> with a string pattern replaces the first occurrence. The
  replacement is used as it is: the ones built below hold no \<open>$\<close>.
\<close>

fun replaceFirst :: "string \<Rightarrow> string \<Rightarrow> string \<Rightarrow> string" where
  "replaceFirst [] pat repl = (if pat = [] then repl else [])"
| "replaceFirst (c # cs) pat repl =
     (if prefix pat (c # cs) then repl @ drop (length pat) (c # cs)
      else c # replaceFirst cs pat repl)"

definition transformComponentCode :: "string \<Rightarrow> ExtractedText list \<Rightarrow> string" where
  "transformComponentCode componentCode extractedTexts =
     (let hasInterface = includesStr componentCode ''interface'';
          hasTProps = includesStr componentCode ''t: (key: string) => string''
      in if \<not> hasInterface \<or> \<not> hasTProps then
           (if \<not> hasInterface then
              (case exportRegex_match componentCode of
                 Some componentName \<Rightarrow>
                   (let interfaceDef =
                          [CHR 0x0A] @ ''interface '' @ componentName @ ''Props {'' @ [CHR 0x0A]
                          @ ''  t: (key: string) => string;'' @ [CHR 0x0A] @ ''}''
                          @ [CHR 0x0A, CHR 0x0A]
                    in replaceFirst componentCode (''export default function '' @ componentName)
                         (interfaceDef @ ''export default function '' @ componentName))
               | None \<Rightarrow> componentCode)
            else componentCode)
         else componentCode)"

subsection \<open>The orchestrator\<close>

text \<open>
  \<open>processComponentWithTranslations\<close> as it stands first in the source file: extract,
  save, transform. (The file holds a second revision of the function, which also builds
  demo props for the preview between saving and transforming; the claims are about the
  three steps here.) Every throw of the steps is caught inside them, so the function
  returns a result, not an error.
\<close>

record ProcessResult =
  transformedCode :: string
  extractedTexts :: "ExtractedText list"
  savedKeys :: "string list"

definition processComponentWithTranslations ::
  "env \<Rightarrow> string \<Rightarrow> string \<Rightarrow> world \<Rightarrow> ProcessResult \<times> world" where
  "processComponentWithTranslations env originalComponentCode componentId w =
     (let (extracted, w1) = extractLocalizationKeys env originalComponentCode w;
          (saved, w2) = processAndSaveExtractedTexts env extracted componentId w1;
          transformed = transformComponentCode originalComponentCode extracted
      in (\<lparr>transformedCode = transformed, extractedTexts = extracted, savedKeys = saved\<rparr>, w2))"

section \<open>Notions for the statements, sample environments and states\<close>

text \<open>
  The text holds a call site with key \<open>k\<close>, in the words of the specification:
  somewhere in it stand \<open>t(\<close>, a quote character, the non-empty literal \<open>k\<close> free of
  quote characters, a quote character, and \<open>)\<close>.
\<close>

definition callSiteOf :: "string \<Rightarrow> string \<Rightarrow> bool" where
  "callSiteOf code k \<longleftrightarrow>
     (\<exists>pre q q' post. code = pre @ ''t('' @ [q] @ k @ [q'] @ '')'' @ post
        \<and> isQuote q \<and> isQuote q' \<and> k \<noteq> [] \<and> (\<forall>c \<in> set k. \<not> isQuote c))"

text \<open>
  The request that \<open>translateKeys\<close> posts for a source text: the keys extracted from
  it, each with its context.
\<close>

definition requestFor :: "string \<Rightarrow> request" where
  "requestFor code = map (\<lambda>e. (key e, context' e)) (extractLoop code 0 {} [])"

text \<open>A sample environment, whose translation service is down, and the state at start-up.\<close>

definition demoEnv :: env where
  "demoEnv = \<lparr>sqlJsLoads = True, storageAccepts = True, fetch = (\<lambda>_. FetchRejects),
              dateNow = (\<lambda>n. 1000 + n)\<rparr>"

definition freshWorld :: world where
  "freshWorld = \<lparr>db = None, localStorage = None, requests = [], dateNowCalls = 0\<rparr>"

text \<open>
  The rows of the open database (none while it is closed), and the two constraints of
  table \<open>localizations\<close>: no two rows with the same \<open>id\<close>, no two with the same
  \<open>key\<close>. \<open>storeOk\<close> asks them of the open database and of the saved one.
\<close>

definition rowsOf :: "world \<Rightarrow> LocalizationEntry list" where
  "rowsOf w = (case db w of None \<Rightarrow> [] | Some d \<Rightarrow> localizations d)"

definition tableOk :: "database \<Rightarrow> bool" where
  "tableOk d \<longleftrightarrow> distinct (map entry_id (localizations d)) \<and> distinct (map entry_key (localizations d))"

definition storeOk :: "world \<Rightarrow> bool" where
  "storeOk w \<longleftrightarrow> (case db w of None \<Rightarrow> True | Some d \<Rightarrow> tableOk d)
                \<and> (case localStorage w of None \<Rightarrow> True | Some d \<Rightarrow> tableOk d)"

text \<open>The entry that \<open>processAndSaveExtractedTexts\<close> builds for a new key.\<close>

definition newEntryOf :: "string \<Rightarrow> ExtractedText \<Rightarrow> Translations \<Rightarrow> nat \<Rightarrow> LocalizationEntry" where
  "newEntryOf componentId extracted tr now =
     \<lparr>en = en tr, es = es tr, fr = fr tr, de = de tr, ja = ja tr, zh = zh tr,
      entry_id = componentId @ ''_'' @ key extracted @ ''_'' @ numberToString now,
      entry_key = key extracted\<rparr>"

text \<open>The keys that have a row in the open database.\<close>

definition keysOf :: "world \<Rightarrow> string set" where
  "keysOf w = entry_key ` set (rowsOf w)"

text \<open>Opening the database changes nothing any more: it is open, or it cannot be opened.\<close>

definition settled :: "env \<Rightarrow> world \<Rightarrow> bool" where
  "settled env w \<longleftrightarrow> db w \<noteq> None \<or> \<not> sqlJsLoads env"

text \<open>
  The failures of the translation call: the request is rejected, the response is not
  \<open>ok\<close>, or \<open>response.json()\<close> throws.
\<close>

fun translationFails :: "fetch_outcome \<Rightarrow> bool" where
  "translationFails FetchRejects = True"
| "translationFails (Response isOk body) = (\<not> isOk \<or> body = None)"

text \<open>A sample environment whose translation service answers, for the key \<open>hello\<close>.\<close>

definition upEnv :: env where
  "upEnv = \<lparr>sqlJsLoads = True, storageAccepts = True,
            fetch = (\<lambda>_. Response True (Some (JsonData True (Some (\<lambda>k.
                      if k = ''hello''
                      then Some \<lparr>en = ''Hello'', es = ''Hola'', fr = ''Bonjour'', de = ''Hallo'',
                                 ja = ''Konnichiwa'', zh = ''Ni hao''\<rparr>
                      else None))))),
            dateNow = (\<lambda>n. 1000 + n)\<rparr>"

text \<open>A state whose database is open and holds no row.\<close>

definition emptyStoreWorld :: world where
  "emptyStoreWorld = \<lparr>db = Some \<lparr>localizations = [], components = Some True\<rparr>,
                       localStorage = None, requests = [], dateNowCalls = 0\<rparr>"

text \<open>The same service, with a clock that stands still at 1000.\<close>

definition sameMsEnv :: env where
  "sameMsEnv = upEnv\<lparr>dateNow := (\<lambda>_. 1000)\<rparr>"

text \<open>
  A state whose only record carries the id that component \<open>c1\<close> would build for the key
  \<open>hello\<close> at time 1000, under another key (the record's key has been edited since).
\<close>

definition clashWorld :: world where
  "clashWorld =
     \<lparr>db = Some \<lparr>localizations =
                   [\<lparr>en = ''Hi'', es = ''Hola'', fr = ''Salut'', de = ''Hallo'', ja = ''Yaa'',
                     zh = ''Hai'', entry_id = ''c1_hello_1000'', entry_key = ''greeting''\<rparr>],
                 components = Some True\<rparr>,
      localStorage = None, requests = [], dateNowCalls = 0\<rparr>"

text \<open>A state whose table holds a record with the key \<^verbatim>\<open>__proto__\<close>.\<close>

definition protoWorld :: world where
  "protoWorld =
     \<lparr>db = Some \<lparr>localizations =
                   [\<lparr>en = ''Hi'', es = ''Hola'', fr = ''Salut'', de = ''Hallo'', ja = ''Yaa'',
                     zh = ''Hai'', entry_id = ''1'', entry_key = ''greeting''\<rparr>,
                    \<lparr>en = ''Proto'', es = ''Proto'', fr = ''Proto'', de = ''Proto'',
                     ja = ''Proto'', zh = ''Proto'', entry_id = ''2'',
                     entry_key = ''__proto__''\<rparr>],
                 components = Some True\<rparr>,
      localStorage = None, requests = [], dateNowCalls = 0\<rparr>"





text \<open>The sample environment in which \<open>initSqlJs\<close> fails.\<close>

definition noSqlEnv :: env where
  "noSqlEnv = demoEnv\<lparr>sqlJsLoads := False\<rparr>"

section \<open>Facts about the extractor\<close>

lemma includesStr_sublist: "includesStr s m \<longleftrightarrow> sublist m s"
  by (induction s) (auto simp: sublist_Cons_right)

lemma substring_window:
  "substring code (nat (max 0 (int i - 50))) (min (length code) (i + 50))
   = take (min (length code) (i + 50) - (i - 50)) (drop (i - 50) code)"
proof -
  have s: "nat (max 0 (int i - 50)) = i - 50" by simp
  show ?thesis
  proof (cases "i - 50 \<le> length code")
    case True
    then have "min (i - 50) (length code) = i - 50"
      and "min (i - 50) (min (length code) (i + 50)) = i - 50"
      and "max (i - 50) (min (length code) (i + 50)) = min (length code) (i + 50)"
      by simp_all
    then show ?thesis unfolding s by (simp add: substring_def Let_def)
  next
    case False
    then have "min (i - 50) (length code) = length code"
      and "min (length code) (i + 50) = length code"
      by simp_all
    with False show ?thesis unfolding s by (simp add: substring_def Let_def)
  qed
qed

lemma window_nth:
  "b \<le> length xs \<Longrightarrow> take (b - a) (drop a xs) = map ((!) xs) [a..<b]"
  by (rule nth_equalityI) (auto simp: nth_append)

lemma tCallRegex_matchAt_shape:
  "tCallRegex_matchAt s = Some (k, n) \<longleftrightarrow>
     (\<exists>q q2 post. s = CHR ''t'' # CHR ''('' # q # k @ q2 # CHR '')'' # post \<and> isQuote q \<and> isQuote q2
        \<and> k \<noteq> [] \<and> (\<forall>c \<in> set k. \<not> isQuote c) \<and> n = length k + 5)"
  (is "?L \<longleftrightarrow> ?R")
proof
  assume L: ?L
  then obtain c1 c2 q rest where s: "s = c1 # c2 # q # rest"
    by (cases s rule: tCallRegex_matchAt.cases) simp_all
  let ?body = "takeWhile (\<lambda>c. \<not> isQuote c) rest"
  let ?after = "dropWhile (\<lambda>c. \<not> isQuote c) rest"
  from L s have h: "c1 = CHR ''t''" "c2 = CHR ''(''" "isQuote q" "?body \<noteq> []"
    by (simp_all add: Let_def split: if_splits)
  from L s h have m: "(case ?after of
                    q2 # p # _ \<Rightarrow> if isQuote q2 \<and> p = CHR '')'' then Some (?body, length ?body + 5) else None
                  | _ \<Rightarrow> None) = Some (k, n)"
    by (simp add: Let_def)
  then obtain q2 p post where after: "?after = q2 # p # post"
    by (cases ?after; simp; cases "tl ?after"; simp)
  from m after have q2: "isQuote q2" and p: "p = CHR '')''" and k: "k = ?body" and n: "n = length ?body + 5"
    by (auto split: if_splits)
  have "rest = ?body @ ?after" by simp
  with after p k have rest: "rest = k @ q2 # CHR '')'' # post" by simp
  have nq: "\<forall>c \<in> set k. \<not> isQuote c" unfolding k by (auto dest: set_takeWhileD)
  have kne: "k \<noteq> []" using h(4) k by simp
  have n': "n = length k + 5" using n k by simp
  have "s = CHR ''t'' # CHR ''('' # q # k @ q2 # CHR '')'' # post"
    using s h(1,2) rest by simp
  with h(3) q2 kne nq n' show ?R by blast
next
  assume ?R
  then obtain q q2 post where s: "s = CHR ''t'' # CHR ''('' # q # k @ q2 # CHR '')'' # post"
    and q: "isQuote q" "isQuote q2" and k: "k \<noteq> []" "\<forall>c \<in> set k. \<not> isQuote c"
    and n: "n = length k + 5" by blast
  have tw: "takeWhile (\<lambda>c. \<not> isQuote c) (k @ q2 # CHR '')'' # post) = k"
    using k q by (simp add: takeWhile_tail)
  have dw: "dropWhile (\<lambda>c. \<not> isQuote c) (k @ q2 # CHR '')'' # post) = q2 # CHR '')'' # post"
    using k q by (simp add: dropWhile_append3)
  show ?L unfolding s using q k n tw dw by (simp add: Let_def)
qed



lemma firstSeenOrder_set: "set (firstSeenOrder ks) = set ks"
  by (induction ks rule: firstSeenOrder.induct) auto


lemma firstSeenOrder_distinct: "distinct (firstSeenOrder ks)"
  by (induction ks rule: firstSeenOrder.induct) (auto simp: firstSeenOrder_set)


lemma filter_key_length:
  "distinct (map f xs) \<Longrightarrow> k \<in> f ` set xs \<Longrightarrow> length (filter (\<lambda>e. f e = k) xs) = 1"
proof (induction xs)
  case Nil
  then show ?case by simp
next
  case (Cons x xs)
  show ?case
  proof (cases "f x = k")
    case True
    from Cons.prems(1) True have "k \<notin> f ` set xs" by auto
    then have "filter (\<lambda>e. f e = k) xs = []" by (auto simp: filter_empty_conv)
    with True show ?thesis by simp
  next
    case False
    with Cons show ?thesis by auto
  qed
qed


lemma extractLoop_keys:
  "map key (extractLoop code i used acc)
   = map key acc @ firstSeenOrder (filter (\<lambda>k. k \<notin> used) (map snd (tCallMatches code i)))"
proof (induction code i used acc rule: extractLoop.induct)
  case (1 code lastIndex usedKeys extractedTexts)
  show ?case
  proof (cases "tCallRegex_exec code lastIndex")
    case None
    then show ?thesis
      by (subst extractLoop.simps, subst tCallMatches.simps) simp
  next
    case (Some a)
    obtain idx k j where a: "a = (idx, k, j)" by (cases a)
    show ?thesis
    proof (cases "k \<in> usedKeys")
      case True
      from "1.IH"(1)[OF Some[unfolded a] refl refl True] True Some a show ?thesis
        by (subst extractLoop.simps, subst tCallMatches.simps) simp
    next
      case False
      have f: "(\<lambda>ka. ka \<noteq> k \<and> ka \<notin> usedKeys) = (\<lambda>x. x \<notin> usedKeys \<and> x \<noteq> k)"
        by auto
      from "1.IH"(2)[OF Some[unfolded a] refl refl False] False Some a show ?thesis
        by (subst extractLoop.simps, subst tCallMatches.simps) (simp add: f)
    qed
  qed
qed


lemma translateKeys_keys: "map key (fst (translateKeys env xs w)) = map key xs"
  by (simp add: translateKeys_def Let_def comp_def split: fetch_outcome.splits option.splits)


lemma extractLocalizationKeys_keys:
  "map key (fst (extractLocalizationKeys env code w)) = firstSeenOrder (map snd (tCallMatches code 0))"
proof (cases "extractLoop code 0 {} [] = []")
  case True
  with extractLoop_keys[of code 0 "{}" "[]"] show ?thesis
    by (simp add: extractLocalizationKeys_def Let_def)
next
  case False
  with extractLoop_keys[of code 0 "{}" "[]"] show ?thesis
    by (simp add: extractLocalizationKeys_def Let_def translateKeys_keys)
qed


lemma tCallRegex_exec_Some:
  "tCallRegex_exec code i = Some (idx, k, j) \<Longrightarrow>
     tCallRegex_matchAt (drop idx code) = Some (k, j - idx) \<and> i \<le> idx
     \<and> (\<forall>i'. i \<le> i' \<and> i' < idx \<longrightarrow> tCallRegex_matchAt (drop i' code) = None)"
proof (induction code i rule: tCallRegex_exec.induct)
  case (1 code i)
  from "1.prems" have le: "\<not> length code < i"
    by (subst (asm) tCallRegex_exec.simps) (simp split: if_splits)
  show ?case
  proof (cases "tCallRegex_matchAt (drop i code)")
    case None
    with "1.prems" le have rec: "tCallRegex_exec code (Suc i) = Some (idx, k, j)"
      by (subst (asm) tCallRegex_exec.simps) simp
    from "1.IH"[OF le None rec] None show ?thesis
      by (metis Suc_leI le_neq_implies_less Suc_leD)
  next
    case (Some a)
    obtain k' n where a: "a = (k', n)" by (cases a)
    with Some "1.prems" le have "idx = i" "k = k'" "j = i + n"
      by (subst (asm) tCallRegex_exec.simps, simp)+
    with Some a show ?thesis by simp
  qed
qed

lemma tCallMatches_member:
  "(idx, k) \<in> set (tCallMatches code i) \<Longrightarrow> \<exists>n. tCallRegex_matchAt (drop idx code) = Some (k, n)"
proof (induction code i rule: tCallMatches.induct)
  case (1 code lastIndex)
  show ?case
  proof (cases "tCallRegex_exec code lastIndex")
    case None
    with "1.prems" show ?thesis by (subst (asm) tCallMatches.simps) simp
  next
    case (Some a)
    obtain idx' k' j where a: "a = (idx', k', j)" by (cases a)
    from "1.prems" Some a have "(idx, k) = (idx', k') \<or> (idx, k) \<in> set (tCallMatches code j)"
      by (subst (asm) tCallMatches.simps) simp
    then show ?thesis
    proof
      assume "(idx, k) = (idx', k')"
      with tCallRegex_exec_Some[OF Some[unfolded a]] show ?thesis by auto
    next
      assume "(idx, k) \<in> set (tCallMatches code j)"
      from "1.IH"[OF Some[unfolded a] refl refl this] show ?thesis .
    qed
  qed
qed


lemma hasTCall_iff: "hasTCall s \<longleftrightarrow> (\<exists>i. tCallRegex_matchAt (drop i s) \<noteq> None)"
proof (induction s)
  case Nil
  then show ?case by simp
next
  case (Cons c cs)
  have "(\<exists>i. tCallRegex_matchAt (drop i (c # cs)) \<noteq> None)
        \<longleftrightarrow> tCallRegex_matchAt (c # cs) \<noteq> None \<or> (\<exists>i. tCallRegex_matchAt (drop i cs) \<noteq> None)"
    (is "?A \<longleftrightarrow> ?B \<or> ?C")
  proof
    assume ?A
    then obtain i where i: "tCallRegex_matchAt (drop i (c # cs)) \<noteq> None" ..
    then show "?B \<or> ?C" by (cases i) auto
  next
    assume "?B \<or> ?C"
    then show ?A
    proof
      assume ?B
      then have "tCallRegex_matchAt (drop 0 (c # cs)) \<noteq> None" by simp
      then show ?A ..
    next
      assume ?C
      then obtain i where "tCallRegex_matchAt (drop i cs) \<noteq> None" ..
      then have "tCallRegex_matchAt (drop (Suc i) (c # cs)) \<noteq> None" by simp
      then show ?A ..
    qed
  qed
  with Cons show ?case by simp
qed


lemma no_call_exec: "\<not> hasTCall code \<Longrightarrow> tCallRegex_exec code i = None"
proof (induction code i rule: tCallRegex_exec.induct)
  case (1 code i)
  from "1.prems" hasTCall_iff[of code] have none: "tCallRegex_matchAt (drop i code) = None"
    by blast
  show ?case
  proof (cases "length code < i")
    case True
    then show ?thesis by (subst tCallRegex_exec.simps) simp
  next
    case False
    from "1.IH"[OF False none "1.prems"] none False show ?thesis
      by (subst tCallRegex_exec.simps) simp
  qed
qed

lemma extractLoop_no_call: "\<not> hasTCall code \<Longrightarrow> extractLoop code i used acc = acc"
  by (subst extractLoop.simps) (simp add: no_call_exec)

lemma isQuote_not_t: "isQuote q \<Longrightarrow> q \<noteq> CHR ''t''"
  by (auto simp: isQuote_def)

lemma matchAt_literal:
  assumes "isQuote q" "isQuote q'" "k \<noteq> []" "\<forall>c \<in> set k. \<not> isQuote c"
  shows "tCallRegex_matchAt (''t('' @ [q] @ k @ [q'] @ '')'' @ rest) = Some (k, length k + 5)"
proof -
  have "''t('' @ [q] @ k @ [q'] @ '')'' @ rest = CHR ''t'' # CHR ''('' # q # k @ q' # CHR '')'' # rest"
    by simp
  with assms show ?thesis
    unfolding tCallRegex_matchAt_shape by blast
qed

lemma matchAt_capture:
  assumes q: "isQuote q" and q': "isQuote q'" and k: "\<forall>c \<in> set k. \<not> isQuote c"
  shows "tCallRegex_matchAt (''t('' @ [q] @ k @ [q'] @ rest)
         = (if k \<noteq> [] \<and> prefix '')'' rest then Some (k, length k + 5) else None)"
proof -
  have tw: "takeWhile (\<lambda>c. \<not> isQuote c) (k @ q' # rest) = k"
    using q' k by (simp add: takeWhile_tail)
  have dw: "dropWhile (\<lambda>c. \<not> isQuote c) (k @ q' # rest) = q' # rest"
    using q' k by (simp add: dropWhile_append3)
  show ?thesis
  proof (cases rest)
    case Nil
    with q tw dw show ?thesis by (simp add: Let_def)
  next
    case (Cons c m)
    with q q' tw dw show ?thesis by (simp add: Let_def)
  qed
qed

lemma matchAt_unterminated:
  assumes q: "isQuote q" and r: "\<forall>c \<in> set rest. \<not> isQuote c"
  shows "tCallRegex_matchAt (''t('' @ [q] @ rest) = None"
proof -
  have dw: "dropWhile (\<lambda>c. \<not> isQuote c) rest = []" using r by simp
  show ?thesis using q by (simp add: Let_def dw)
qed

lemma extract_first_literal:
  assumes q: "isQuote q" "isQuote q'" and k: "k \<noteq> []" "\<forall>c \<in> set k. \<not> isQuote c"
  shows "prefix [k] (map key (fst (extractLocalizationKeys env (''t('' @ [q] @ k @ [q'] @ '')'' @ r) w)))"
    and "r = [] \<Longrightarrow>
         map key (fst (extractLocalizationKeys env (''t('' @ [q] @ k @ [q'] @ '')'' @ r) w)) = [k]"
proof -
  define code where "code = ''t('' @ [q] @ k @ [q'] @ '')'' @ r"
  from matchAt_literal[OF q k] have m: "tCallRegex_matchAt (drop 0 code) = Some (k, length k + 5)"
    unfolding code_def by simp
  have ex: "tCallRegex_exec code 0 = Some (0, k, length k + 5)"
    by (subst tCallRegex_exec.simps) (simp only: m, simp)
  have ms: "tCallMatches code 0 = (0, k) # tCallMatches code (length k + 5)"
    by (subst tCallMatches.simps) (simp only: ex, simp)
  have keys: "map key (fst (extractLocalizationKeys env code w))
              = k # firstSeenOrder (filter (\<lambda>x. x \<noteq> k) (map snd (tCallMatches code (length k + 5))))"
    unfolding extractLocalizationKeys_keys ms by simp
  then show "prefix [k] (map key (fst (extractLocalizationKeys env (''t('' @ [q] @ k @ [q'] @ '')'' @ r) w)))"
    unfolding code_def[symmetric] by simp
  assume "r = []"
  then have len: "length code = length k + 5" unfolding code_def by simp
  have "tCallRegex_matchAt (drop (length code) code) = None" by simp
  moreover have "tCallRegex_exec code (Suc (length code)) = None"
    by (subst tCallRegex_exec.simps) simp
  ultimately have "tCallRegex_exec code (length code) = None"
    by (subst tCallRegex_exec.simps) simp
  then have "tCallMatches code (length k + 5) = []"
    unfolding len[symmetric] by (subst tCallMatches.simps) simp
  with keys show "map key (fst (extractLocalizationKeys env (''t('' @ [q] @ k @ [q'] @ '')'' @ r) w)) = [k]"
    unfolding code_def[symmetric] by simp
qed

lemma isQuote_chars [simp]:
  "\<not> isQuote CHR ''t''" "\<not> isQuote CHR ''(''" "\<not> isQuote CHR '')''"
  by (simp_all add: isQuote_def)

lemma matchAt_nth:
  assumes "tCallRegex_matchAt s = Some (k, n)"
  shows "n = length k + 5" "n \<le> length s" "k \<noteq> []"
    "s ! 0 = CHR ''t''" "s ! 1 = CHR ''(''" "isQuote (s ! 2)"
    "\<And>m. m < length k \<Longrightarrow> s ! (3 + m) = k ! m \<and> \<not> isQuote (s ! (3 + m))"
    "isQuote (s ! (3 + length k))" "s ! (4 + length k) = CHR '')''"
proof -
  from assms obtain q q2 post where s: "s = CHR ''t'' # CHR ''('' # q # k @ q2 # CHR '')'' # post"
    and q: "isQuote q" "isQuote q2" and k: "k \<noteq> []" "\<forall>c \<in> set k. \<not> isQuote c"
    and n: "n = length k + 5"
    unfolding tCallRegex_matchAt_shape by blast
  show "n = length k + 5" by (rule n)
  show "n \<le> length s" unfolding s n by simp
  show "k \<noteq> []" by (rule k)
  show "s ! 0 = CHR ''t''" "s ! 1 = CHR ''(''" unfolding s by simp_all
  show "isQuote (s ! 2)" unfolding s using q by simp
  have three: "s ! (3 + m) = (k @ q2 # CHR '')'' # post) ! m" for m
    unfolding s by simp
  show "s ! (3 + m) = k ! m \<and> \<not> isQuote (s ! (3 + m))" if "m < length k" for m
    unfolding three using that k(2) by (simp add: nth_append)
  show "isQuote (s ! (3 + length k))" unfolding three using q by (simp add: nth_append)
  have "s ! (4 + length k) = (k @ q2 # CHR '')'' # post) ! (Suc (length k))"
    using three[of "Suc (length k)"] by simp
  then show "s ! (4 + length k) = CHR '')''" by (simp add: nth_append)
qed

lemma matches_overlap:
  assumes outer: "tCallRegex_matchAt s = Some (k', n')"
    and inner: "tCallRegex_matchAt (drop off s) = Some (k, n)"
    and off: "0 < off" "off < n'"
  shows "prefix '')'' k"
proof -
  note o = matchAt_nth[OF outer]
  note i = matchAt_nth[OF inner]
  from i(1,2) have len: "off + length k + 5 \<le> length s" by simp
  have at: "drop off s ! j = s ! (off + j)" if "j < length k + 5" for j
    using that len by (intro nth_drop) simp
  from i(4) at[of 0] have t: "s ! off = CHR ''t''" by simp
  from i(6) at[of 2] have q: "isQuote (s ! (off + 2))" by simp
  from i(7)[of 0] i(3) at[of 3] have h: "s ! (off + 3) = k ! 0" by simp
  have ge: "length k' + 1 \<le> off"
  proof (rule ccontr)
    assume "\<not> length k' + 1 \<le> off"
    with off(1) have m: "off - 1 < length k'" and eq: "off + 2 = 3 + (off - 1)" by simp_all
    from o(7)[OF m, THEN conjunct2] have "\<not> isQuote (s ! (off + 2))" unfolding eq .
    with q show False by blast
  qed
  from off(2) o(1) have le: "off \<le> length k' + 4" by simp
  from ge le consider "off = length k' + 1" | "off = length k' + 2" | "off = length k' + 3"
    | "off = length k' + 4" by linarith
  then show ?thesis
  proof cases
    case 1
    then have e: "off + 3 = 4 + length k'" by simp
    from h have "k ! 0 = CHR '')''" unfolding e o(9) by simp
    with i(3) show ?thesis by (cases k) simp_all
  next
    case 2
    then have e: "off + 2 = 4 + length k'" by simp
    from q have "isQuote CHR '')''" unfolding e o(9) .
    then show ?thesis by simp
  next
    case 3
    then have e: "off = 3 + length k'" by simp
    from o(8) have "isQuote (s ! off)" unfolding e .
    then have "isQuote CHR ''t''" unfolding t .
    then show ?thesis by simp
  next
    case 4
    then have e: "off = 4 + length k'" by simp
    from o(9) have "s ! off = CHR '')''" unfolding e .
    with t show ?thesis by simp
  qed
qed

lemma exec_finds:
  assumes "i \<le> p" "tCallRegex_matchAt (drop p code) \<noteq> None"
  shows "\<exists>idx k j. tCallRegex_exec code i = Some (idx, k, j) \<and> idx \<le> p"
  using assms
proof (induction code i rule: tCallRegex_exec.induct)
  case (1 code i)
  have plen: "p \<le> length code"
  proof (rule ccontr)
    assume "\<not> p \<le> length code"
    then have "drop p code = []" by simp
    with "1.prems"(2) show False by simp
  qed
  with "1.prems"(1) have le: "\<not> length code < i" by simp
  show ?case
  proof (cases "tCallRegex_matchAt (drop i code)")
    case (Some a)
    obtain k n where "a = (k, n)" by (cases a)
    with Some le "1.prems"(1) show ?thesis
      by (subst tCallRegex_exec.simps) simp
  next
    case None
    with "1.prems"(2) have "i \<noteq> p" by auto
    with "1.prems"(1) have "Suc i \<le> p" by simp
    from "1.IH"[OF le None this "1.prems"(2)] None le show ?thesis
      by (subst tCallRegex_exec.simps) simp
  qed
qed

lemma scan_finds:
  assumes "i \<le> p" "tCallRegex_matchAt (drop p code) = Some (k, n)" "\<not> prefix '')'' k"
  shows "k \<in> snd ` set (tCallMatches code i)"
  using assms
proof (induction code i rule: tCallMatches.induct)
  case (1 code lastIndex)
  from "1.prems"(2) have "tCallRegex_matchAt (drop p code) \<noteq> None" by simp
  from exec_finds[OF "1.prems"(1) this] obtain idx k' j
    where ex: "tCallRegex_exec code lastIndex = Some (idx, k', j)" and idx: "idx \<le> p" by blast
  have ms: "tCallMatches code lastIndex = (idx, k') # tCallMatches code j"
    by (subst tCallMatches.simps) (simp add: ex)
  from tCallRegex_exec_Some[OF ex] have outer: "tCallRegex_matchAt (drop idx code) = Some (k', j - idx)"
    by simp
  from tCallRegex_exec_bounds[OF ex] have b: "idx < j" by simp
  show ?case
  proof (cases "idx = p")
    case True
    with outer "1.prems"(2) have "k' = k" by simp
    with ms show ?thesis by simp
  next
    case False
    with idx have lt: "idx < p" by simp
    show ?thesis
    proof (cases "j \<le> p")
      case True
      from "1.IH"[OF ex refl refl True "1.prems"(2,3)] ms show ?thesis by simp
    next
      case False
      with lt have off: "0 < p - idx" "p - idx < j - idx" by simp_all
      from lt have "drop (p - idx) (drop idx code) = drop p code" by simp
      with "1.prems"(2) have inner: "tCallRegex_matchAt (drop (p - idx) (drop idx code)) = Some (k, n)"
        by simp
      from matches_overlap[OF outer inner off] "1.prems"(3) show ?thesis by simp
    qed
  qed
qed

lemma matchAt_literal2:
  assumes "isQuote q" "isQuote q'" "k \<noteq> []" "\<forall>c \<in> set k. \<not> isQuote c"
  shows "tCallRegex_matchAt (CHR ''t'' # CHR ''('' # q # k @ q' # CHR '')'' # rest) = Some (k, length k + 5)"
  using assms unfolding tCallRegex_matchAt_shape by blast

lemma callSiteOf_matchAt:
  "callSiteOf code k \<longleftrightarrow> (\<exists>p n. tCallRegex_matchAt (drop p code) = Some (k, n))"
proof
  assume "callSiteOf code k"
  then obtain pre q q' post where code: "code = pre @ ''t('' @ [q] @ k @ [q'] @ '')'' @ post"
    and q: "isQuote q" "isQuote q'" and k: "k \<noteq> []" "\<forall>c \<in> set k. \<not> isQuote c"
    unfolding callSiteOf_def by blast
  have "drop (length pre) code = CHR ''t'' # CHR ''('' # q # k @ q' # CHR '')'' # post"
    unfolding code by simp
  with matchAt_literal2[OF q k, of post]
  have "tCallRegex_matchAt (drop (length pre) code) = Some (k, length k + 5)" by simp
  then show "\<exists>p n. tCallRegex_matchAt (drop p code) = Some (k, n)" by (intro exI)
next
  assume "\<exists>p n. tCallRegex_matchAt (drop p code) = Some (k, n)"
  then obtain p n where "tCallRegex_matchAt (drop p code) = Some (k, n)" by (elim exE)
  then obtain q q2 post where d: "drop p code = CHR ''t'' # CHR ''('' # q # k @ q2 # CHR '')'' # post"
    and q: "isQuote q" "isQuote q2" and k: "k \<noteq> []" "\<forall>c \<in> set k. \<not> isQuote c"
    unfolding tCallRegex_matchAt_shape by blast
  have "code = take p code @ drop p code" by simp
  then have c: "code = take p code @ ''t('' @ [q] @ k @ [q2] @ '')'' @ post"
    unfolding d by simp
  show "callSiteOf code k"
    unfolding callSiteOf_def
    by (rule exI[of _ "take p code"], rule exI[of _ q], rule exI[of _ q2], rule exI[of _ post])
       (intro conjI c q k)
qed


lemma callSiteOf_found:
  assumes "callSiteOf code k" "\<not> prefix '')'' k"
  shows "k \<in> set (map snd (tCallMatches code 0))"
proof -
  from assms(1) obtain p n where "tCallRegex_matchAt (drop p code) = Some (k, n)"
    unfolding callSiteOf_matchAt by (elim exE)
  from scan_finds[OF _ this assms(2), of 0] show ?thesis by simp
qed

lemma extracted_key_callSite:
  assumes "e \<in> set (fst (extractLocalizationKeys env code w))"
  shows "callSiteOf code (key e)"
proof -
  from assms have "key e \<in> set (map key (fst (extractLocalizationKeys env code w)))" by simp
  then have "key e \<in> set (map snd (tCallMatches code 0))"
    unfolding extractLocalizationKeys_keys firstSeenOrder_set .
  then obtain idx where "(idx, key e) \<in> set (tCallMatches code 0)" by auto
  from tCallMatches_member[OF this] obtain n
    where "tCallRegex_matchAt (drop idx code) = Some (key e, n)" ..
  then show ?thesis unfolding callSiteOf_matchAt by (intro exI)
qed

lemma callSite_extracted:
  assumes q: "isQuote q" "isQuote q'" and k: "k \<noteq> []" "\<forall>c \<in> set k. \<not> isQuote c"
    and np: "\<not> prefix '')'' k"
  shows "k \<in> set (map key (fst (extractLocalizationKeys env
                (pre @ ''t('' @ [q] @ k @ [q'] @ '')'' @ post) w)))"
proof -
  have "callSiteOf (pre @ ''t('' @ [q] @ k @ [q'] @ '')'' @ post) k"
    unfolding callSiteOf_def using q k by blast
  from callSiteOf_found[OF this np] show ?thesis
    unfolding extractLocalizationKeys_keys firstSeenOrder_set .
qed

section \<open>Facts about the store\<close>

lemma seed_ok:
  "fst (seedInitialData initialData \<lparr>localizations = [], components = None\<rparr>) = None"
  by code_simp

lemma seed_rows:
  "map entry_key (localizations (snd (seedInitialData initialData \<lparr>localizations = [], components = None\<rparr>)))
   = map entry_key initialData"
  by code_simp

lemma sqlInsert_tableOk: "tableOk d \<Longrightarrow> sqlInsert e d = Inr d' \<Longrightarrow> tableOk d'"
  by (auto simp: sqlInsert_def tableOk_def split: if_splits)

lemma seedInitialData_tableOk:
  "tableOk d \<Longrightarrow> tableOk (snd (seedInitialData entries d))"
proof (induction entries arbitrary: d)
  case Nil
  then show ?case by simp
next
  case (Cons e entries)
  show ?case
  proof (cases "sqlInsert e d")
    case (Inl a)
    with Cons.prems show ?thesis by simp
  next
    case (Inr d')
    from Cons.IH[OF sqlInsert_tableOk[OF Cons.prems Inr]] Inr show ?thesis by simp
  qed
qed

lemma sqlDelete_tableOk: "tableOk d \<Longrightarrow> tableOk (sqlDelete i d)"
  by (simp add: tableOk_def sqlDelete_def distinct_map_filter)


lemma distinct_map_update:
  assumes "distinct (map f rows)" "distinct (map g rows)"
    and "\<forall>r \<in> set rows. f r \<noteq> i \<longrightarrow> g r \<noteq> v"
    and "\<And>r. g (upd r) = v"
  shows "distinct (map g (map (\<lambda>r. if f r = i then upd r else r) rows))"
proof -
  define h where "h = (\<lambda>r. if f r = i then upd r else r)"
  have hit: "g (h r) = v" if "f r = i" for r using that assms(4) by (simp add: h_def)
  have miss: "h r = r" if "f r \<noteq> i" for r using that by (simp add: h_def)
  have "distinct (map g (map h rows))"
    using assms(1-3)
  proof (induction rows)
    case Nil
    then show ?case by simp
  next
    case (Cons r rows)
    from Cons.prems have ih: "distinct (map g (map h rows))"
      by (intro Cons.IH) auto
    have "g (h r) \<noteq> g (h x)" if x: "x \<in> set rows" for x
    proof (cases "f r = i")
      case True
      from Cons.prems(1) have "f r \<notin> f ` set rows" by simp
      with x have "f x \<noteq> f r" by (metis imageI)
      with True have fx: "f x \<noteq> i" by simp
      with Cons.prems(3) x have "g x \<noteq> v" by simp
      with hit[OF True] miss[OF fx] show ?thesis by simp
    next
      case False
      with Cons.prems(3) have gv: "g r \<noteq> v" by simp
      from Cons.prems(2) have "g r \<notin> g ` set rows" by simp
      with x have gx: "g x \<noteq> g r" by (metis imageI)
      show ?thesis
      proof (cases "f x = i")
        case True
        with hit[OF True] miss[OF False] gv show ?thesis by simp
      next
        case fx: False
        with miss[OF fx] miss[OF False] gx show ?thesis by simp
      qed
    qed
    then have "g (h r) \<notin> set (map g (map h rows))" by auto
    with ih show ?case by simp
  qed
  then show ?thesis by (simp only: h_def)
qed

lemma map_update_nohit:
  "\<forall>r \<in> set rows. f r \<noteq> i \<Longrightarrow> map (\<lambda>r. if f r = i then u r else r) rows = rows"
  by (induction rows) auto

lemma map_update_same:
  "(\<And>r. f (u r) = f r) \<Longrightarrow> map f (map (\<lambda>r. if c r then u r else r) rows) = map f rows"
  by (induction rows) auto

lemma setField_id: "field \<noteq> ''id'' \<Longrightarrow> entry_id (setField field v r) = entry_id r"
  by (simp add: setField_def)

lemma setField_key: "field \<noteq> ''key'' \<Longrightarrow> entry_key (setField field v r) = entry_key r"
  by (simp add: setField_def)

lemma sqlUpdate_tableOk:
  assumes ok: "tableOk d" and upd: "sqlUpdate field v i d = Inr d'"
  shows "tableOk d'"
proof -
  let ?rows = "localizations d"
  let ?rows' = "map (\<lambda>r. if entry_id r = i then setField field v r else r) ?rows"
  from upd have d': "localizations d' = ?rows'"
    by (auto simp: sqlUpdate_def Let_def split: if_splits)
  from ok have dist: "distinct (map entry_id ?rows)" "distinct (map entry_key ?rows)"
    by (simp_all add: tableOk_def)
  have nohit: "?rows' = ?rows" if "\<not> (\<exists>r \<in> set ?rows. entry_id r = i)"
    using that by (intro map_update_nohit) blast
  have ids: "distinct (map entry_id ?rows')"
  proof (cases "field = ''id''")
    case True
    show ?thesis
    proof (cases "\<exists>r \<in> set ?rows. entry_id r = i")
      case hit: True
      with True upd have "\<forall>r \<in> set ?rows. entry_id r \<noteq> i \<longrightarrow> entry_id r \<noteq> v"
        by (auto simp: sqlUpdate_def Let_def split: if_splits)
      from distinct_map_update[OF dist(1) dist(1) this, of "setField field v"] True
      show ?thesis by (simp add: setField_def)
    next
      case False
      from nohit[OF this] dist show ?thesis by simp
    qed
  next
    case False
    then have "map entry_id ?rows' = map entry_id ?rows"
      by (intro map_update_same) (simp add: setField_id)
    with dist(1) show ?thesis by (simp only:)
  qed
  have keys: "distinct (map entry_key ?rows')"
  proof (cases "field = ''key''")
    case True
    show ?thesis
    proof (cases "\<exists>r \<in> set ?rows. entry_id r = i")
      case hit: True
      with True upd have "\<forall>r \<in> set ?rows. entry_id r \<noteq> i \<longrightarrow> entry_key r \<noteq> v"
        by (auto simp: sqlUpdate_def Let_def split: if_splits)
      from distinct_map_update[OF dist(1) dist(2) this, of "setField field v"] True
      show ?thesis by (simp add: setField_def)
    next
      case False
      from nohit[OF this] dist show ?thesis by simp
    qed
  next
    case False
    then have "map entry_key ?rows' = map entry_key ?rows"
      by (intro map_update_same) (simp add: setField_key)
    with dist(2) show ?thesis by (simp only:)
  qed
  from ids keys d' show ?thesis by (simp add: tableOk_def)
qed

lemma save_fields [simp]:
  "db (saveDatabaseToLocalStorage env w) = db w"
  "requests (saveDatabaseToLocalStorage env w) = requests w"
  "dateNowCalls (saveDatabaseToLocalStorage env w) = dateNowCalls w"
  by (simp_all add: saveDatabaseToLocalStorage_def split: option.splits)

lemma save_storage:
  "localStorage (saveDatabaseToLocalStorage env w)
   = (if storageAccepts env \<and> db w \<noteq> None then db w else localStorage w)"
  by (auto simp: saveDatabaseToLocalStorage_def split: option.splits)

lemma save_storeOk: "storeOk w \<Longrightarrow> storeOk (saveDatabaseToLocalStorage env w)"
  by (auto simp: storeOk_def saveDatabaseToLocalStorage_def split: option.splits)

lemma initializeDatabase_open: "db w = Some d \<Longrightarrow> initializeDatabase env w = (Inr (), w)"
  by (simp add: initializeDatabase_def)

lemma initializeDatabase_down:
  "db w = None \<Longrightarrow> \<not> sqlJsLoads env \<Longrightarrow> initializeDatabase env w = (Inl SqlJsUnavailable, w)"
  by (simp add: initializeDatabase_def)

lemma initializeDatabase_up:
  assumes "db w = None" "sqlJsLoads env"
  shows "fst (initializeDatabase env w) = Inr () \<and> db (snd (initializeDatabase env w)) \<noteq> None
         \<and> requests (snd (initializeDatabase env w)) = requests w
         \<and> dateNowCalls (snd (initializeDatabase env w)) = dateNowCalls w"
proof (cases "localStorage w")
  case None
  obtain e d where sd: "seedInitialData initialData \<lparr>localizations = [], components = None\<rparr> = (e, d)"
    by (cases "seedInitialData initialData \<lparr>localizations = [], components = None\<rparr>")
  with seed_ok have "e = None" by simp
  with sd None assms show ?thesis by (simp add: initializeDatabase_def)
next
  case (Some savedDb)
  with assms show ?thesis
    by (cases "components savedDb") (auto simp: initializeDatabase_def split: bool.splits)
qed

lemma initializeDatabase_storeOk:
  assumes "storeOk w"
  shows "storeOk (snd (initializeDatabase env w))"
proof (cases "db w")
  case (Some d)
  with assms show ?thesis by (simp add: initializeDatabase_open)
next
  case None
  show ?thesis
  proof (cases "sqlJsLoads env")
    case False
    with None assms show ?thesis by (simp add: initializeDatabase_down)
  next
    case True
    show ?thesis
    proof (cases "localStorage w")
      case lsNone: None
      obtain e d where sd: "seedInitialData initialData \<lparr>localizations = [], components = None\<rparr> = (e, d)"
        by (cases "seedInitialData initialData \<lparr>localizations = [], components = None\<rparr>")
      with seed_ok have e: "e = None" by simp
      have "tableOk \<lparr>localizations = [], components = None\<rparr>" by (simp add: tableOk_def)
      from seedInitialData_tableOk[OF this, of initialData] sd have "tableOk d" by simp
      then have "tableOk (d\<lparr>components := Some True\<rparr>)" by (simp add: tableOk_def)
      with lsNone have "storeOk (w\<lparr>db := Some (d\<lparr>components := Some True\<rparr>)\<rparr>)"
        by (simp add: storeOk_def)
      from save_storeOk[OF this, of env] sd e None True lsNone show ?thesis
        by (simp add: initializeDatabase_def)
    next
      case (Some savedDb)
      with assms have ok: "tableOk savedDb" by (simp add: storeOk_def)
      then have ok': "tableOk (savedDb\<lparr>components := Some True\<rparr>)" by (simp add: tableOk_def)
      from ok Some assms have w1: "storeOk (w\<lparr>db := Some savedDb\<rparr>)"
        by (simp add: storeOk_def)
      from ok' Some assms have w2: "storeOk (w\<lparr>db := Some (savedDb\<lparr>components := Some True\<rparr>)\<rparr>)"
        by (simp add: storeOk_def)
      show ?thesis
      proof (cases "components savedDb")
        case cNone: None
        with save_storeOk[OF w2, of env] Some None True show ?thesis
          by (simp add: initializeDatabase_def)
      next
        case (Some b)
        with save_storeOk[OF w1, of env] save_storeOk[OF save_storeOk[OF w2, of env], of env]
          \<open>localStorage w = Some savedDb\<close> None True show ?thesis
          by (cases b) (simp_all add: initializeDatabase_def)
      qed
    qed
  qed
qed

lemma LocalizationDB_init_open: "db w = Some d \<Longrightarrow> LocalizationDB_init env w = (Inr (), w)"
  by (simp add: LocalizationDB_init_def)

lemma openDb_open: "db w = Some d \<Longrightarrow> openDb env w = (Inr d, w)"
  by (simp add: openDb_def)

lemma getAll_open:
  "db w = Some d \<Longrightarrow> LocalizationDB_getAll env w = (Inr (sort_key entry_key (localizations d)), w)"
  by (simp add: LocalizationDB_getAll_def LocalizationDB_init_open getAllLocalizations_def openDb_open)

lemma create_open:
  "db w = Some d \<Longrightarrow>
   LocalizationDB_create env e w =
     (case sqlInsert e d of
        Inl err \<Rightarrow> (Inl err, w)
      | Inr d' \<Rightarrow> (Inr (), saveDatabaseToLocalStorage env (w\<lparr>db := Some d'\<rparr>)))"
  by (simp add: LocalizationDB_create_def LocalizationDB_init_open createLocalization_def openDb_open)

lemma getAll_down:
  "db w = None \<Longrightarrow> \<not> sqlJsLoads env \<Longrightarrow> LocalizationDB_getAll env w = (Inl SqlJsUnavailable, w)"
  by (simp add: LocalizationDB_getAll_def LocalizationDB_init_def initializeDatabase_down)

lemma getAll_up:
  assumes "db w = None" "sqlJsLoads env"
  shows "\<exists>d. db (snd (initializeDatabase env w)) = Some d
             \<and> LocalizationDB_getAll env w
                 = (Inr (sort_key entry_key (localizations d)), snd (initializeDatabase env w))"
proof -
  obtain r w' where i: "initializeDatabase env w = (r, w')" by (cases "initializeDatabase env w")
  with initializeDatabase_up[OF assms] obtain d where r: "r = Inr ()" and d: "db w' = Some d"
    by auto
  have "LocalizationDB_getAll env w = getAllLocalizations env w'"
    using assms(1) i r by (simp add: LocalizationDB_getAll_def LocalizationDB_init_def)
  also have "\<dots> = (Inr (sort_key entry_key (localizations d)), w')"
    using d by (simp add: getAllLocalizations_def openDb_open)
  finally show ?thesis using i d by simp
qed

lemma find_case:
  "(case find P xs of None \<Rightarrow> a | Some x \<Rightarrow> b) = (if \<exists>x \<in> set xs. P x then b else a)"
  by (induction xs) auto

lemma processLoop_step_open:
  assumes "db w = Some d"
  shows "processLoop env componentId (e # rest) saved w =
     (if key e \<in> entry_key ` set (localizations d)
      then processLoop env componentId rest (saved @ [key e]) w
      else (case translations' e of
              None \<Rightarrow> processLoop env componentId rest saved w
            | Some tr \<Rightarrow>
                (case sqlInsert (newEntryOf componentId e tr (dateNow env (dateNowCalls w))) d of
                   Inl err \<Rightarrow>
                     processLoop env componentId rest saved (w\<lparr>dateNowCalls := Suc (dateNowCalls w)\<rparr>)
                 | Inr d' \<Rightarrow>
                     processLoop env componentId rest (saved @ [key e])
                       (saveDatabaseToLocalStorage env
                          (w\<lparr>dateNowCalls := Suc (dateNowCalls w), db := Some d'\<rparr>)))))"
proof -
  have ex: "(\<exists>x \<in> set (sort_key entry_key (localizations d)). entry_key x = key e)
            \<longleftrightarrow> key e \<in> entry_key ` set (localizations d)" by force
  have c: "db (w\<lparr>dateNowCalls := Suc (dateNowCalls w)\<rparr>) = Some d" using assms by simp
  have unf: "processLoop env componentId (e # rest) saved w =
      (if key e \<in> entry_key ` set (localizations d)
       then processLoop env componentId rest (saved @ [key e]) w
       else (case translations' e of
               None \<Rightarrow> processLoop env componentId rest saved w
             | Some tr \<Rightarrow>
                 (case LocalizationDB_create env
                         (newEntryOf componentId e tr (dateNow env (dateNowCalls w)))
                         (w\<lparr>dateNowCalls := Suc (dateNowCalls w)\<rparr>) of
                    (Inl err, w3) \<Rightarrow> processLoop env componentId rest saved w3
                  | (Inr u, w3) \<Rightarrow> processLoop env componentId rest (saved @ [key e]) w3)))"
    by (simp only: processLoop.simps getAll_open[OF assms] find_case ex Date_now_def
          newEntryOf_def prod.case sum.case Let_def)
  show ?thesis
    unfolding unf create_open[OF c]
    by (cases "translations' e"; cases "sqlInsert (newEntryOf componentId e (the (translations' e)) (dateNow env (dateNowCalls w))) d")
       simp_all
qed

lemma processLoop_closed:
  "db w = None \<Longrightarrow> \<not> sqlJsLoads env \<Longrightarrow> processLoop env componentId xs saved w = (saved, w)"
proof (induction xs)
  case Nil
  then show ?case by simp
next
  case (Cons e rest)
  from Cons.prems have g: "LocalizationDB_getAll env w = (Inl SqlJsUnavailable, w)"
    by (rule getAll_down)
  show ?case
    by (simp only: processLoop.simps g prod.case sum.case Cons.IH[OF Cons.prems])
qed

lemma processLoop_opens:
  assumes "db w = None" "sqlJsLoads env"
  shows "processLoop env componentId (e # rest) saved w
         = processLoop env componentId (e # rest) saved (snd (initializeDatabase env w))"
proof -
  from getAll_up[OF assms] obtain d where d: "db (snd (initializeDatabase env w)) = Some d"
    and g: "LocalizationDB_getAll env w
            = (Inr (sort_key entry_key (localizations d)), snd (initializeDatabase env w))" by blast
  show ?thesis
    by (simp only: processLoop.simps g getAll_open[OF d])
qed

lemma sqlInsert_rows: "sqlInsert n d = Inr d1 \<Longrightarrow> localizations d1 = localizations d @ [n]"
  by (auto simp: sqlInsert_def split: if_splits)

lemma sqlInsert_fail: "sqlInsert n d = Inl err \<Longrightarrow> err = ConstraintFailed"
  by (auto simp: sqlInsert_def split: if_splits)

lemma newEntryOf_key [simp]: "entry_key (newEntryOf componentId e tr now) = key e"
  by (simp add: newEntryOf_def)

lemma processLoop_saved_open:
  assumes "db w = Some d" "distinct (map key xs)"
  shows "\<exists>d'. db (snd (processLoop env componentId xs saved w)) = Some d'
            \<and> prefix (localizations d) (localizations d')
            \<and> entry_key ` set (localizations d') \<subseteq> entry_key ` set (localizations d) \<union> key ` set xs
            \<and> fst (processLoop env componentId xs saved w)
                = saved @ filter (\<lambda>k. k \<in> entry_key ` set (localizations d')) (map key xs)"
  using assms
proof (induction xs arbitrary: w d saved)
  case Nil
  then show ?case by simp
next
  case (Cons e rest)
  let ?K = "\<lambda>d. entry_key ` set (localizations d)"
  from Cons.prems(2) have dist: "distinct (map key rest)" and fresh: "key e \<notin> key ` set rest"
    by simp_all
  note step = processLoop_step_open[OF Cons.prems(1), of env componentId e rest saved]
  have skip: ?case
    if eq: "processLoop env componentId (e # rest) saved w = processLoop env componentId rest saved w2"
      and w2: "db w2 = Some d" and notin: "key e \<notin> ?K d" for w2
  proof -
    from Cons.IH[OF w2 dist, of saved] obtain d' where
      d': "db (snd (processLoop env componentId rest saved w2)) = Some d'"
      and pre: "prefix (localizations d) (localizations d')"
      and sub: "?K d' \<subseteq> ?K d \<union> key ` set rest"
      and sv: "fst (processLoop env componentId rest saved w2)
               = saved @ filter (\<lambda>k. k \<in> ?K d') (map key rest)" by blast
    from sub notin fresh have "key e \<notin> ?K d'" by blast
    with d' pre sub sv show ?thesis unfolding eq by (intro exI[of _ d']) auto
  qed
  have push: ?case
    if eq: "processLoop env componentId (e # rest) saved w
            = processLoop env componentId rest (saved @ [key e]) w2"
      and w2: "db w2 = Some d2" and pre2: "prefix (localizations d) (localizations d2)"
      and sub2: "?K d2 \<subseteq> insert (key e) (?K d)" and mem: "key e \<in> ?K d2" for w2 d2
  proof -
    from Cons.IH[OF w2 dist, of "saved @ [key e]"] obtain d' where
      d': "db (snd (processLoop env componentId rest (saved @ [key e]) w2)) = Some d'"
      and pre: "prefix (localizations d2) (localizations d')"
      and sub: "?K d' \<subseteq> ?K d2 \<union> key ` set rest"
      and sv: "fst (processLoop env componentId rest (saved @ [key e]) w2)
               = (saved @ [key e]) @ filter (\<lambda>k. k \<in> ?K d') (map key rest)" by blast
    from pre have "set (localizations d2) \<subseteq> set (localizations d')" by (rule set_mono_prefix)
    with mem have "key e \<in> ?K d'" by blast
    moreover from pre2 pre have "prefix (localizations d) (localizations d')"
      by (rule prefix_order.trans)
    moreover from sub sub2 have "?K d' \<subseteq> ?K d \<union> key ` set (e # rest)" by auto
    ultimately show ?thesis using d' sv unfolding eq by (intro exI[of _ d']) auto
  qed
  show ?case
  proof (cases "key e \<in> ?K d")
    case True
    with step have eq: "processLoop env componentId (e # rest) saved w
                    = processLoop env componentId rest (saved @ [key e]) w" by simp
    have p1: "prefix (localizations d) (localizations d)" by simp
    have p2: "?K d \<subseteq> insert (key e) (?K d)" by blast
    show ?thesis by (rule push[OF eq Cons.prems(1) p1 p2 True])
  next
    case False
    show ?thesis
    proof (cases "translations' e")
      case None
      with step False have "processLoop env componentId (e # rest) saved w
                            = processLoop env componentId rest saved w" by simp
      from skip[OF this Cons.prems(1) False] show ?thesis .
    next
      case (Some tr)
      let ?n = "newEntryOf componentId e tr (dateNow env (dateNowCalls w))"
      show ?thesis
      proof (cases "sqlInsert ?n d")
        case (Inl err)
        with step False Some have "processLoop env componentId (e # rest) saved w
            = processLoop env componentId rest saved (w\<lparr>dateNowCalls := Suc (dateNowCalls w)\<rparr>)"
          by simp
        from skip[OF this _ False] Cons.prems(1) show ?thesis by simp
      next
        case (Inr d1)
        with step False Some have eq: "processLoop env componentId (e # rest) saved w
            = processLoop env componentId rest (saved @ [key e])
                (saveDatabaseToLocalStorage env
                   (w\<lparr>dateNowCalls := Suc (dateNowCalls w), db := Some d1\<rparr>))"
          by simp
        from sqlInsert_rows[OF Inr] have rows: "localizations d1 = localizations d @ [?n]" .
        have w3: "db (saveDatabaseToLocalStorage env
                   (w\<lparr>dateNowCalls := Suc (dateNowCalls w), db := Some d1\<rparr>)) = Some d1"
          by simp
        have p1: "prefix (localizations d) (localizations d1)" unfolding rows by simp
        have k1: "?K d1 = insert (key e) (?K d)" unfolding rows by simp
        then have p2: "?K d1 \<subseteq> insert (key e) (?K d)" and p3: "key e \<in> ?K d1" by simp_all
        show ?thesis by (rule push[OF eq w3 p1 p2 p3])
      qed
    qed
  qed
qed

lemma processLoop_nothing_new_open:
  assumes "db w = Some d"
    and "\<forall>e \<in> set xs. key e \<in> entry_key ` set (localizations d) \<or> translations' e = None"
  shows "processLoop env componentId xs saved w
         = (saved @ filter (\<lambda>k. k \<in> entry_key ` set (localizations d)) (map key xs), w)"
  using assms(2)
proof (induction xs arbitrary: saved)
  case Nil
  then show ?case by simp
next
  case (Cons e rest)
  note step = processLoop_step_open[OF assms(1), of env componentId e rest saved]
  from Cons.prems have rest: "\<forall>e \<in> set rest. key e \<in> entry_key ` set (localizations d) \<or> translations' e = None"
    and hd: "key e \<in> entry_key ` set (localizations d) \<or> translations' e = None" by simp_all
  show ?case
  proof (cases "key e \<in> entry_key ` set (localizations d)")
    case True
    with step Cons.IH[OF rest, of "saved @ [key e]"] show ?thesis by simp
  next
    case False
    with hd have "translations' e = None" by simp
    with False step Cons.IH[OF rest, of saved] show ?thesis by simp
  qed
qed

lemma keysOf_open: "db w = Some d \<Longrightarrow> keysOf w = entry_key ` set (localizations d)"
  by (simp add: keysOf_def rowsOf_def)

lemma keysOf_closed: "db w = None \<Longrightarrow> keysOf w = {}"
  by (simp add: keysOf_def rowsOf_def)

lemma storeOk_cong: "db w' = db w \<Longrightarrow> localStorage w' = localStorage w \<Longrightarrow> storeOk w' = storeOk w"
  by (simp add: storeOk_def)

lemma processLoop_step_shape_open:
  assumes "db w = Some d"
  shows "\<exists>s' w' d'. processLoop env componentId (e # rest) saved w
                     = processLoop env componentId rest s' w'
                 \<and> (s' = saved \<or> s' = saved @ [key e]) \<and> db w' = Some d'
                 \<and> (storeOk w \<longrightarrow> storeOk w')"
proof -
  note step = processLoop_step_open[OF assms, of env componentId e rest saved]
  show ?thesis
  proof (cases "key e \<in> entry_key ` set (localizations d)")
    case True
    with step assms show ?thesis by auto
  next
    case False
    show ?thesis
    proof (cases "translations' e")
      case None
      with step False assms show ?thesis by auto
    next
      case (Some tr)
      let ?n = "newEntryOf componentId e tr (dateNow env (dateNowCalls w))"
      let ?w2 = "w\<lparr>dateNowCalls := Suc (dateNowCalls w)\<rparr>"
      show ?thesis
      proof (cases "sqlInsert ?n d")
        case (Inl err)
        with step False Some have eq: "processLoop env componentId (e # rest) saved w
            = processLoop env componentId rest saved ?w2" by simp
        have "storeOk ?w2 = storeOk w" by (rule storeOk_cong) simp_all
        with eq assms show ?thesis by (intro exI[of _ saved] exI[of _ ?w2] exI[of _ d]) simp
      next
        case (Inr d1)
        let ?w3 = "saveDatabaseToLocalStorage env (w\<lparr>dateNowCalls := Suc (dateNowCalls w), db := Some d1\<rparr>)"
        from step False Some Inr have eq: "processLoop env componentId (e # rest) saved w
            = processLoop env componentId rest (saved @ [key e]) ?w3" by simp
        have ok: "storeOk ?w3" if "storeOk w"
        proof -
          from that assms have "tableOk d" by (simp add: storeOk_def)
          from sqlInsert_tableOk[OF this Inr] that
          have "storeOk (w\<lparr>dateNowCalls := Suc (dateNowCalls w), db := Some d1\<rparr>)"
            by (simp add: storeOk_def)
          then show ?thesis by (rule save_storeOk)
        qed
        have "db ?w3 = Some d1" by simp
        with eq ok show ?thesis
          by (intro exI[of _ "saved @ [key e]"] exI[of _ ?w3] exI[of _ d1]) simp
      qed
    qed
  qed
qed

lemma processLoop_step_shape:
  "\<exists>s' w'. processLoop env componentId (e # rest) saved w = processLoop env componentId rest s' w'
           \<and> (s' = saved \<or> s' = saved @ [key e]) \<and> (storeOk w \<longrightarrow> storeOk w')"
proof (cases "db w")
  case (Some d)
  from processLoop_step_shape_open[OF this, of env componentId e rest saved] show ?thesis by blast
next
  case None
  show ?thesis
  proof (cases "sqlJsLoads env")
    case False
    from getAll_down[OF None False]
    have "processLoop env componentId (e # rest) saved w = processLoop env componentId rest saved w"
      by (simp only: processLoop.simps prod.case sum.case)
    then show ?thesis by blast
  next
    case True
    let ?w = "snd (initializeDatabase env w)"
    from initializeDatabase_up[OF None True] obtain d where d: "db ?w = Some d" by auto
    from processLoop_step_shape_open[OF d, of env componentId e rest saved]
      processLoop_opens[OF None True, of componentId e rest saved]
      initializeDatabase_storeOk[of w env]
    show ?thesis by metis
  qed
qed

lemma processLoop_extends:
  "\<exists>ks. fst (processLoop env componentId xs saved w) = saved @ ks"
proof (induction xs arbitrary: saved w)
  case Nil
  then show ?case by simp
next
  case (Cons e rest)
  from processLoop_step_shape[of env componentId e rest saved w] obtain s' w' where
    eq: "processLoop env componentId (e # rest) saved w = processLoop env componentId rest s' w'"
    and s': "s' = saved \<or> s' = saved @ [key e]" by blast
  from Cons.IH[of s' w'] obtain ks where "fst (processLoop env componentId rest s' w') = s' @ ks" ..
  with eq s' show ?case by auto
qed

lemma processLoop_storeOk:
  "storeOk w \<Longrightarrow> storeOk (snd (processLoop env componentId xs saved w))"
proof (induction xs arbitrary: saved w)
  case Nil
  then show ?case by simp
next
  case (Cons e rest)
  from processLoop_step_shape[of env componentId e rest saved w] Cons.prems obtain s' w' where
    eq: "processLoop env componentId (e # rest) saved w = processLoop env componentId rest s' w'"
    and ok: "storeOk w'" by blast
  from Cons.IH[OF ok, of s'] eq show ?case by simp
qed

lemma processLoop_append:
  "processLoop env componentId (xs @ ys) saved w =
     processLoop env componentId ys (fst (processLoop env componentId xs saved w))
       (snd (processLoop env componentId xs saved w))"
proof (induction xs arbitrary: saved w)
  case Nil
  then show ?case by simp
next
  case (Cons e rest)
  have shape: "\<exists>s' w'. \<forall>tl. processLoop env componentId (e # tl) saved w
                             = processLoop env componentId tl s' w'"
  proof (cases "LocalizationDB_getAll env w")
    case (Pair r w1)
    show ?thesis
    proof (cases r)
      case (Inl err)
      with Pair have "\<forall>tl. processLoop env componentId (e # tl) saved w
                        = processLoop env componentId tl saved w1"
        by (simp add: processLoop.simps(2))
      then show ?thesis by blast
    next
      case (Inr rows)
      show ?thesis
      proof (cases "find (\<lambda>t. entry_key t = key e) rows")
        case (Some existing)
        with Pair Inr have "\<forall>tl. processLoop env componentId (e # tl) saved w
                        = processLoop env componentId tl (saved @ [key e]) w1"
          by (simp add: processLoop.simps(2))
        then show ?thesis by blast
      next
        case None
        show ?thesis
        proof (cases "translations' e")
          case tn: None
          with Pair Inr None have "\<forall>tl. processLoop env componentId (e # tl) saved w
                        = processLoop env componentId tl saved w1"
            by (simp add: processLoop.simps(2))
          then show ?thesis by blast
        next
          case (Some tr)
          obtain r3 w3 where c: "LocalizationDB_create env
              \<lparr>en = en tr, es = es tr, fr = fr tr, de = de tr, ja = ja tr, zh = zh tr,
               entry_id = componentId @ ''_'' @ key e @ ''_'' @ numberToString (dateNow env (dateNowCalls w1)),
               entry_key = key e\<rparr>
              (w1\<lparr>dateNowCalls := Suc (dateNowCalls w1)\<rparr>) = (r3, w3)"
            by (cases "LocalizationDB_create env
              \<lparr>en = en tr, es = es tr, fr = fr tr, de = de tr, ja = ja tr, zh = zh tr,
               entry_id = componentId @ ''_'' @ key e @ ''_'' @ numberToString (dateNow env (dateNowCalls w1)),
               entry_key = key e\<rparr>
              (w1\<lparr>dateNowCalls := Suc (dateNowCalls w1)\<rparr>)")
          show ?thesis
          proof (cases r3)
            case l: (Inl err)
            with c Pair Inr None Some have "\<forall>tl. processLoop env componentId (e # tl) saved w
                        = processLoop env componentId tl saved w3"
              by (simp only: processLoop.simps(2) prod.case sum.case option.case
                    Date_now_def Let_def simp_thms)
            then show ?thesis by blast
          next
            case r: (Inr u)
            with c Pair Inr None Some have "\<forall>tl. processLoop env componentId (e # tl) saved w
                        = processLoop env componentId tl (saved @ [key e]) w3"
              by (simp only: processLoop.simps(2) prod.case sum.case option.case
                    Date_now_def Let_def simp_thms)
            then show ?thesis by blast
          qed
        qed
      qed
    qed
  qed
  then obtain s' w' where eq: "\<And>tl. processLoop env componentId (e # tl) saved w
                                   = processLoop env componentId tl s' w'" by blast
  show ?case
    using Cons.IH[of s' w'] eq[of "rest @ ys"] eq[of rest] by simp
qed

lemma processLoop_saved:
  assumes "distinct (map key xs)"
  shows "fst (processLoop env componentId xs saved w)
         = saved @ filter (\<lambda>k. k \<in> keysOf (snd (processLoop env componentId xs saved w))) (map key xs)"
proof (cases xs)
  case Nil
  then show ?thesis by simp
next
  case (Cons e rest)
  have open_case: ?thesis if d: "db w0 = Some d"
    and eq: "processLoop env componentId xs saved w = processLoop env componentId xs saved w0" for w0 d
  proof -
    from processLoop_saved_open[OF d assms, of env componentId saved] obtain d' where
      "db (snd (processLoop env componentId xs saved w0)) = Some d'"
      "fst (processLoop env componentId xs saved w0)
       = saved @ filter (\<lambda>k. k \<in> entry_key ` set (localizations d')) (map key xs)" by blast
    then show ?thesis unfolding eq by (simp add: keysOf_open)
  qed
  show ?thesis
  proof (cases "db w")
    case (Some d)
    from open_case[OF Some refl] show ?thesis .
  next
    case None
    show ?thesis
    proof (cases "sqlJsLoads env")
      case False
      from processLoop_closed[OF None False] None show ?thesis by (simp add: keysOf_closed)
    next
      case True
      from initializeDatabase_up[OF None True] obtain d
        where d: "db (snd (initializeDatabase env w)) = Some d" by auto
      from open_case[OF d] processLoop_opens[OF None True, of componentId e rest saved] Cons
      show ?thesis by simp
    qed
  qed
qed

lemma processLoop_nothing_new:
  assumes "settled env w" "\<forall>e \<in> set xs. key e \<in> keysOf w \<or> translations' e = None"
  shows "processLoop env componentId xs saved w
         = (saved @ filter (\<lambda>k. k \<in> keysOf w) (map key xs), w)"
proof (cases "db w")
  case (Some d)
  from processLoop_nothing_new_open[OF Some, of xs env componentId saved] assms(2)
  show ?thesis by (simp add: keysOf_open[OF Some])
next
  case None
  with assms(1) have "\<not> sqlJsLoads env" by (simp add: settled_def)
  from processLoop_closed[OF None this] None show ?thesis by (simp add: keysOf_closed)
qed

lemma processLoop_settled:
  assumes "xs \<noteq> []"
  shows "settled env (snd (processLoop env componentId xs saved w))"
proof (cases "sqlJsLoads env")
  case False
  then show ?thesis by (simp add: settled_def)
next
  case True
  from assms obtain e rest where xs: "xs = e # rest" by (cases xs) auto
  have open_case: "db (snd (processLoop env componentId xs saved w0)) \<noteq> None" if "db w0 = Some d" for w0 d
    using that
  proof (induction xs arbitrary: saved w0 d)
    case Nil
    then show ?case by simp
  next
    case (Cons a xs)
    from processLoop_step_shape_open[OF Cons.prems, of env componentId a xs saved]
    obtain s' w' d' where "processLoop env componentId (a # xs) saved w0 = processLoop env componentId xs s' w'"
      "db w' = Some d'" by blast
    with Cons.IH[of w' d' s'] show ?case by simp
  qed
  show ?thesis
  proof (cases "db w")
    case (Some d)
    from open_case[OF Some] show ?thesis by (simp add: settled_def)
  next
    case None
    from initializeDatabase_up[OF None True] obtain d
      where d: "db (snd (initializeDatabase env w)) = Some d" by auto
    from open_case[OF d] processLoop_opens[OF None True, of componentId e rest saved] xs
    show ?thesis by (simp add: settled_def)
  qed
qed

lemma translateKeys_world:
  "snd (translateKeys env xs w) = w\<lparr>requests := requests w @ [map (\<lambda>e. (key e, context' e)) xs]\<rparr>"
  by (simp add: translateKeys_def Let_def split: fetch_outcome.splits option.splits)

lemma translateKeys_fst: "fst (translateKeys env xs w) = fst (translateKeys env xs w')"
  by (simp add: translateKeys_def Let_def split: fetch_outcome.splits option.splits)

lemma extract_fst: "fst (extractLocalizationKeys env code w) = fst (extractLocalizationKeys env code w')"
  using translateKeys_fst[of env "extractLoop code 0 {} []" w w']
  by (simp add: extractLocalizationKeys_def Let_def)

lemma translateKeys_service:
  "fetch env' (map (\<lambda>e. (key e, context' e)) xs) = fetch env (map (\<lambda>e. (key e, context' e)) xs)
   \<Longrightarrow> fst (translateKeys env' xs w') = fst (translateKeys env xs w)"
  by (simp add: translateKeys_def Let_def split: fetch_outcome.splits option.splits)

lemma extract_service:
  assumes "fetch env' (requestFor code) = fetch env (requestFor code)"
  shows "fst (extractLocalizationKeys env' code w') = fst (extractLocalizationKeys env code w)"
  using translateKeys_service[OF assms[unfolded requestFor_def], of w' w]
  by (simp add: extractLocalizationKeys_def Let_def)

lemma extract_world:
  "db (snd (extractLocalizationKeys env code w)) = db w"
  "localStorage (snd (extractLocalizationKeys env code w)) = localStorage w"
  "dateNowCalls (snd (extractLocalizationKeys env code w)) = dateNowCalls w"
  by (simp_all add: extractLocalizationKeys_def Let_def translateKeys_world)

lemma extract_world_empty:
  "fst (extractLocalizationKeys env code w) = [] \<Longrightarrow> snd (extractLocalizationKeys env code w) = w"
proof -
  assume a: "fst (extractLocalizationKeys env code w) = []"
  have "map key (fst (translateKeys env xs w)) = map key xs" for xs by (rule translateKeys_keys)
  then have "fst (translateKeys env xs w) = [] \<longleftrightarrow> xs = []" for xs
    by (metis map_is_Nil_conv)
  with a show ?thesis
    by (cases "extractLoop code 0 {} [] = []") (simp_all add: extractLocalizationKeys_def Let_def)
qed

lemma extract_distinct: "distinct (map key (fst (extractLocalizationKeys env code w)))"
  unfolding extractLocalizationKeys_keys by (rule firstSeenOrder_distinct)

lemma extractLoop_plain:
  "\<forall>e \<in> set acc. translations' e = None \<and> text' e = key e \<Longrightarrow>
   \<forall>e \<in> set (extractLoop code i used acc). translations' e = None \<and> text' e = key e"
proof (induction code i used acc rule: extractLoop.induct)
  case (1 code lastIndex usedKeys extractedTexts)
  show ?case
  proof (cases "tCallRegex_exec code lastIndex")
    case None
    with "1.prems" show ?thesis by (subst extractLoop.simps) simp
  next
    case (Some a)
    obtain idx k j where a: "a = (idx, k, j)" by (cases a)
    show ?thesis
    proof (cases "k \<in> usedKeys")
      case True
      from "1.IH"(1)[OF Some[unfolded a] refl refl True "1.prems"] True Some a show ?thesis
        by (subst extractLoop.simps) simp
    next
      case False
      have "\<forall>e \<in> set (extractedTexts @
               [\<lparr>key = k, text' = k, context' = Some (determineContext code idx),
                 translations' = None\<rparr>]). translations' e = None \<and> text' e = key e"
        using "1.prems" by simp
      from "1.IH"(2)[OF Some[unfolded a] refl refl False this] False Some a show ?thesis
        by (subst extractLoop.simps) simp
    qed
  qed
qed

lemma translateKeys_fails:
  "translationFails (fetch env (map (\<lambda>e. (key e, context' e)) xs)) \<Longrightarrow> fst (translateKeys env xs w) = xs"
  by (cases "fetch env (map (\<lambda>e. (key e, context' e)) xs)")
     (auto simp: translateKeys_def Let_def split: option.splits)

lemma initializeDatabase_frame:
  "db (snd (initializeDatabase env (w\<lparr>requests := r\<rparr>))) = db (snd (initializeDatabase env w))"
  "localStorage (snd (initializeDatabase env (w\<lparr>requests := r\<rparr>)))
   = localStorage (snd (initializeDatabase env w))"
  by (simp_all add: initializeDatabase_def saveDatabaseToLocalStorage_def
        split: option.splits bool.splits prod.splits)

lemma orchestrator_unfold:
  "processComponentWithTranslations env code componentId w =
     (\<lparr>transformedCode = transformComponentCode code (fst (extractLocalizationKeys env code w)),
       extractedTexts = fst (extractLocalizationKeys env code w),
       savedKeys = fst (processLoop env componentId (fst (extractLocalizationKeys env code w)) []
                         (snd (extractLocalizationKeys env code w)))\<rparr>,
      snd (processLoop env componentId (fst (extractLocalizationKeys env code w)) []
             (snd (extractLocalizationKeys env code w))))"
  by (simp add: processComponentWithTranslations_def processAndSaveExtractedTexts_def
        split: prod.splits)

lemma settled_cong: "db w' = db w \<Longrightarrow> settled env w' = settled env w"
  by (simp add: settled_def)

lemma keysOf_cong: "db w' = db w \<Longrightarrow> keysOf w' = keysOf w"
  by (simp add: keysOf_def rowsOf_def)

lemma sqlInsert_id_clash:
  "entry_id n \<in> entry_id ` set (localizations d) \<Longrightarrow> sqlInsert n d = Inl ConstraintFailed"
  by (simp add: sqlInsert_def)

lemma newEntryOf_id:
  "entry_id (newEntryOf componentId e tr now)
   = componentId @ ''_'' @ key e @ ''_'' @ numberToString now"
  by (simp add: newEntryOf_def)

lemma openDb_closed: "db w = None \<Longrightarrow> snd (openDb env w) = snd (initializeDatabase env w)"
  by (cases "initializeDatabase env w"; cases "fst (initializeDatabase env w)")
     (auto simp: openDb_def split: option.splits)

lemma openDb_result:
  "openDb env w = (Inr d, w') \<Longrightarrow> db w' = Some d"
  by (cases "db w"; cases "initializeDatabase env w"; cases "fst (initializeDatabase env w)")
     (auto simp: openDb_def split: option.splits)

lemma openDb_storeOk: "storeOk w \<Longrightarrow> storeOk (snd (openDb env w))"
proof (cases "db w")
  case None
  assume "storeOk w"
  with openDb_closed[OF None, of env] initializeDatabase_storeOk[of w env] show ?thesis by simp
next
  case (Some d)
  assume "storeOk w"
  with Some show ?thesis by (simp add: openDb_open)
qed

lemma storeOk_db: "storeOk w \<Longrightarrow> db w = Some d \<Longrightarrow> tableOk d"
  by (simp add: storeOk_def)

lemma storeOk_set_db: "storeOk w \<Longrightarrow> tableOk d \<Longrightarrow> storeOk (w\<lparr>db := Some d\<rparr>)"
  by (simp add: storeOk_def)

lemma createLocalization_storeOk:
  assumes "storeOk w"
  shows "storeOk (snd (createLocalization env entry w))"
proof (cases "openDb env w")
  case (Pair r w')
  from openDb_storeOk[OF assms, of env] Pair have ok: "storeOk w'" by simp
  show ?thesis
  proof (cases r)
    case (Inl e)
    with Pair ok show ?thesis by (simp add: createLocalization_def)
  next
    case (Inr d)
    with Pair have d: "db w' = Some d" by (simp add: openDb_result)
    show ?thesis
    proof (cases "sqlInsert entry d")
      case l: (Inl e)
      with Pair Inr ok show ?thesis by (simp add: createLocalization_def)
    next
      case r: (Inr d')
      from sqlInsert_tableOk[OF storeOk_db[OF ok d] r] have "tableOk d'" .
      from save_storeOk[OF storeOk_set_db[OF ok this], of env] Pair Inr r show ?thesis
        by (simp add: createLocalization_def)
    qed
  qed
qed

lemma updateLocalization_storeOk:
  assumes "storeOk w"
  shows "storeOk (snd (updateLocalization env i field v w))"
proof (cases "openDb env w")
  case (Pair r w')
  from openDb_storeOk[OF assms, of env] Pair have ok: "storeOk w'" by simp
  show ?thesis
  proof (cases r)
    case (Inl e)
    with Pair ok show ?thesis by (simp add: updateLocalization_def)
  next
    case (Inr d)
    with Pair have d: "db w' = Some d" by (simp add: openDb_result)
    show ?thesis
    proof (cases "sqlUpdate field v i d")
      case l: (Inl e)
      with Pair Inr ok show ?thesis by (simp add: updateLocalization_def)
    next
      case r: (Inr d')
      from sqlUpdate_tableOk[OF storeOk_db[OF ok d] r] have "tableOk d'" .
      from save_storeOk[OF storeOk_set_db[OF ok this], of env] Pair Inr r ok show ?thesis
        by (simp add: updateLocalization_def)
    qed
  qed
qed

lemma deleteLocalization_storeOk:
  assumes "storeOk w"
  shows "storeOk (snd (deleteLocalization env i w))"
proof (cases "openDb env w")
  case (Pair r w')
  from openDb_storeOk[OF assms, of env] Pair have ok: "storeOk w'" by simp
  show ?thesis
  proof (cases r)
    case (Inl e)
    with Pair ok show ?thesis by (simp add: deleteLocalization_def)
  next
    case (Inr d)
    with Pair have d: "db w' = Some d" by (simp add: openDb_result)
    from sqlDelete_tableOk[OF storeOk_db[OF ok d], of i] have "tableOk (sqlDelete i d)" .
    from save_storeOk[OF storeOk_set_db[OF ok this], of env] Pair Inr show ?thesis
      by (simp add: deleteLocalization_def)
  qed
qed

lemma orchestrator_storeOk:
  assumes "storeOk w"
  shows "storeOk (snd (processComponentWithTranslations env code componentId w))"
proof -
  have "storeOk (snd (extractLocalizationKeys env code w))"
    using assms storeOk_cong[OF extract_world(1,2), of env code w] by simp
  from processLoop_storeOk[OF this] show ?thesis unfolding orchestrator_unfold by simp
qed

lemma orchestrator_rows:
  assumes "db w = Some d"
  shows "\<exists>d'. db (snd (processComponentWithTranslations env code componentId w)) = Some d'
             \<and> prefix (localizations d) (localizations d')"
proof -
  have "db (snd (extractLocalizationKeys env code w)) = Some d"
    using assms by (simp add: extract_world)
  from processLoop_saved_open[OF this extract_distinct[of env code w],
      where env = env and componentId = componentId and saved = "[]"]
  show ?thesis unfolding orchestrator_unfold by auto
qed

lemma storeOk_count:
  assumes "storeOk w"
  shows "length (filter (\<lambda>r. entry_key r = k) (rowsOf w)) \<le> 1"
proof (cases "db w")
  case None
  then show ?thesis by (simp add: rowsOf_def)
next
  case (Some d)
  with assms have dist: "distinct (map entry_key (localizations d))"
    by (simp add: storeOk_def tableOk_def)
  show ?thesis
  proof (cases "k \<in> entry_key ` set (localizations d)")
    case True
    from filter_key_length[OF dist True] Some show ?thesis by (simp add: rowsOf_def)
  next
    case False
    then have "filter (\<lambda>r. entry_key r = k) (localizations d) = []"
      by (auto simp: filter_empty_conv)
    with Some show ?thesis by (simp add: rowsOf_def)
  qed
qed

lemma foldl_assign_other:
  "k \<notin> fst ` set rows \<Longrightarrow>
   foldl (\<lambda>acc row. objectAssign acc (fst row) (snd row)) m rows k = m k"
  by (induction rows arbitrary: m) (auto simp: objectAssign_def)

lemma foldl_assign_dom:
  "dom (foldl (\<lambda>acc row. objectAssign acc (fst row) (snd row)) m rows)
   = dom m \<union> (fst ` set rows - {''__proto__''})"
  by (induction rows arbitrary: m) (auto simp: objectAssign_def)

lemma foldl_assign_lookup:
  "distinct (map fst rows) \<Longrightarrow> (k, v) \<in> set rows \<Longrightarrow> k \<noteq> ''__proto__'' \<Longrightarrow>
   foldl (\<lambda>acc row. objectAssign acc (fst row) (snd row)) m rows k = Some v"
proof (induction rows arbitrary: m)
  case Nil
  then show ?case by simp
next
  case (Cons r rows)
  show ?case
  proof (cases "r = (k, v)")
    case True
    with Cons.prems(1) have "k \<notin> fst ` set rows" by auto
    from foldl_assign_other[OF this, of "objectAssign m k v"] Cons.prems(3)
    have "foldl (\<lambda>acc row. objectAssign acc (fst row) (snd row)) (objectAssign m k v) rows k = Some v"
      by (simp add: objectAssign_def)
    then show ?thesis unfolding True by (simp only: foldl_Cons fst_conv snd_conv)
  next
    case False
    with Cons.prems have "(k, v) \<in> set rows" "distinct (map fst rows)" by auto
    from Cons.IH[OF this(2,1) Cons.prems(3)] show ?thesis by (simp only: foldl_Cons)
  qed
qed

lemma validLocales_columns: "locale \<in> set validLocales \<Longrightarrow> locale \<in> set columns"
  by (auto simp: validLocales_def columns_def)

lemma getTranslations_open:
  assumes d: "db w = Some d" and v: "locale \<in> set validLocales"
  shows "getTranslations env locale w
         = (Inr (foldl (\<lambda>acc row. objectAssign acc (fst row) (snd row)) Map.empty
                   (map (\<lambda>r. (entry_key r, getField locale r)) (localizations d))), w)"
  using v validLocales_columns[OF v]
  by (simp add: getTranslations_def openDb_open[OF d] sqlSelectKeyAnd_def)

subsection \<open>The loop among other invocations\<close>













lemma LocalizationDB_init_storeOk: "storeOk w \<Longrightarrow> storeOk (snd (LocalizationDB_init env w))"
  using initializeDatabase_storeOk[of w env]
  by (cases "db w") (simp_all add: LocalizationDB_init_def)

lemma runStoreCall_storeOk:
  assumes "storeOk w"
  shows "storeOk (runStoreCall env c w)"
proof -
  obtain r w' where i: "LocalizationDB_init env w = (r, w')" by (cases "LocalizationDB_init env w")
  with LocalizationDB_init_storeOk[OF assms, of env] have ok: "storeOk w'" by simp
  show ?thesis
  proof (cases c)
    case (CreateCall entry)
    with i ok createLocalization_storeOk[OF ok, of env entry] show ?thesis
      by (cases r) (simp_all add: LocalizationDB_create_def)
  next
    case (UpdateCall i' field v)
    with i ok updateLocalization_storeOk[OF ok, of env i' field v] show ?thesis
      by (cases r) (simp_all add: LocalizationDB_update_def)
  next
    case (DeleteCall i')
    with i ok deleteLocalization_storeOk[OF ok, of env i'] show ?thesis
      by (cases r) (simp_all add: LocalizationDB_delete_def)
  qed
qed

lemma suspend_storeOk: "storeOk w \<Longrightarrow> storeOk (snd (suspend env sched w))"
proof (cases sched)
  case Nil
  assume "storeOk w"
  with Nil show ?thesis by simp
next
  case (Cons calls rest)
  assume ok: "storeOk w"
  have "storeOk (foldl (\<lambda>w' c. runStoreCall env c w') w calls)"
    using ok by (induction calls arbitrary: w) (simp_all add: runStoreCall_storeOk)
  with Cons show ?thesis by simp
qed

lemma getAll_storeOk: "storeOk w \<Longrightarrow> storeOk (snd (LocalizationDB_getAll env w))"
proof -
  assume ok: "storeOk w"
  obtain r w' where i: "LocalizationDB_init env w = (r, w')" by (cases "LocalizationDB_init env w")
  with LocalizationDB_init_storeOk[OF ok, of env] have ok': "storeOk w'" by simp
  from openDb_storeOk[OF ok', of env] have "storeOk (snd (getAllLocalizations env w'))"
    by (cases "openDb env w'"; cases "fst (openDb env w')") (auto simp: getAllLocalizations_def)
  with i ok' show ?thesis by (cases r) (simp_all add: LocalizationDB_getAll_def)
qed

lemma create_storeOk: "storeOk w \<Longrightarrow> storeOk (snd (LocalizationDB_create env entry w))"
  using runStoreCall_storeOk[of w env "CreateCall entry"] by simp

lemma processLoopInterleaved_storeOk:
  "storeOk w \<Longrightarrow> storeOk (snd (processLoopInterleaved env componentId sched xs saved w))"
proof (induction xs arbitrary: sched saved w)
  case Nil
  then show ?case by simp
next
  case (Cons e rest)
  obtain sched1 w0 where s: "suspend env sched w = (sched1, w0)" by (cases "suspend env sched w")
  with suspend_storeOk[OF Cons.prems, of env sched] have ok0: "storeOk w0" by simp
  obtain r w1 where g: "LocalizationDB_getAll env w0 = (r, w1)"
    by (cases "LocalizationDB_getAll env w0")
  with getAll_storeOk[OF ok0, of env] have ok1: "storeOk w1" by simp
  have ok2: "storeOk (w1\<lparr>dateNowCalls := Suc (dateNowCalls w1)\<rparr>)"
    using ok1 by (simp add: storeOk_def)
  obtain sched2 w3 where s2: "suspend env sched1 (w1\<lparr>dateNowCalls := Suc (dateNowCalls w1)\<rparr>)
                              = (sched2, w3)"
    by (cases "suspend env sched1 (w1\<lparr>dateNowCalls := Suc (dateNowCalls w1)\<rparr>)")
  with suspend_storeOk[OF ok2, of env sched1] have ok3: "storeOk w3" by simp
  have ok4: "storeOk w4" if "LocalizationDB_create env entry w3 = (r4, w4)" for entry r4 w4
    using create_storeOk[OF ok3, of env entry] that by simp
  show ?case
    using s g s2 ok1 Cons.IH
    by (simp only: processLoopInterleaved.simps Let_def Date_now_def prod.case
          split: prod.split sum.split option.split)
       (blast intro: ok4)
qed


section \<open>The claims\<close>

text \<open>
  C4. For every source text and offset, \<open>determineContext\<close> takes the characters at the
  positions from 50 before the offset (not below 0) up to 50 after it (not beyond the end
  of the text), lowercases them, and answers with the first label, in the order
  \<open>button\<close>, \<open>placeholder\<close>, \<open>heading\<close>, \<open>label\<close>, \<open>content\<close>, whose marker the
  window contains, and with \<open>general\<close> when it contains none; the answer is always one
  of the six labels.
\<close>

theorem C4_context_classifier:
  "determineContext code i =
     (let w = toLowerCase (map ((!) code) [i - 50 ..< min (length code) (i + 50)])
      in if sublist ''<button'' w \<or> sublist ''onclick'' w then ''button''
         else if sublist ''placeholder'' w then ''placeholder''
         else if sublist ''<h1'' w \<or> sublist ''<h2'' w \<or> sublist ''<h3'' w then ''heading''
         else if sublist ''<label'' w then ''label''
         else if sublist ''<p>'' w \<or> sublist ''<span'' w then ''content''
         else ''general'')
   \<and> determineContext code i
       \<in> {''button'', ''placeholder'', ''heading'', ''label'', ''content'', ''general''}"
proof -
  have w: "substring code (nat (max 0 (int i - 50))) (min (length code) (i + 50))
           = map ((!) code) [i - 50 ..< min (length code) (i + 50)]"
    by (simp only: substring_window window_nth[OF min.cobounded1])
  show ?thesis
    unfolding determineContext_def Let_def w includesStr_sublist by simp
qed

theorem C4_context_classifier_witness:
  "determineContext (''<div><BUTTON onClick={go}>{t('save_document')}</BUTTON></div>'') 28 = ''button''
   \<and> determineContext (''<div><h2>{t('title')}</h2><input placeholder={t('hint')} /></div>'') 10 = ''placeholder''
   \<and> determineContext (''{t('plain')}'') 1 = ''general''"
  using C4_context_classifier[of "''<div><BUTTON onClick={go}>{t('save_document')}</BUTTON></div>''" 28]
    C4_context_classifier[of "''<div><h2>{t('title')}</h2><input placeholder={t('hint')} /></div>''" 10]
    C4_context_classifier[of "''{t('plain')}''" 1]
  by code_simp





text \<open>
  C8, as the code has it. Where the text reads \<open>t(\<close>, a quote character of any of
  the three styles, a run \<open>k\<close> free of quote characters and a quote character of any
  style, the capture is \<open>k\<close> and ends at that quote character; the regular expression
  matches there exactly when \<open>k\<close> is non-empty and a closing parenthesis comes next,
  and it does not match where no quote character closes the run. So a call site whose
  literal is non-empty and free of quote characters is matched in every style, also with
  two delimiters of different styles, and its literal is the key: it is the first key
  extracted when the text starts with it, the only one when the text is that call site,
  and one of the keys extracted wherever the call site stands, unless the literal begins
  with a closing parenthesis (the site can then lie inside an earlier match). A literal
  that holds a quote character, of the style of its delimiter or of another, is cut at
  that character, and its call site is matched only if a closing parenthesis follows at
  once. Every key extracted is the literal of such a call site of the text.
\<close>

theorem C8_quoting_styles:
  "(q \<in> {CHR 0x27, CHR 0x22, CHR 0x60} \<and> q' \<in> {CHR 0x27, CHR 0x22, CHR 0x60}
      \<and> (\<forall>c \<in> set k. c \<notin> {CHR 0x27, CHR 0x22, CHR 0x60}) \<longrightarrow>
      tCallRegex_matchAt (''t('' @ [q] @ k @ [q'] @ rest)
        = (if k \<noteq> [] \<and> prefix '')'' rest then Some (k, length k + 5) else None)
      \<and> tCallRegex_matchAt (''t('' @ [q] @ k) = None)
   \<and> (q \<in> {CHR 0x27, CHR 0x22, CHR 0x60} \<and> q' \<in> {CHR 0x27, CHR 0x22, CHR 0x60}
      \<and> k \<noteq> [] \<and> (\<forall>c \<in> set k. c \<notin> {CHR 0x27, CHR 0x22, CHR 0x60}) \<longrightarrow>
        prefix [k] (map key (fst (extractLocalizationKeys env
                      (''t('' @ [q] @ k @ [q'] @ '')'' @ post) w)))
        \<and> map key (fst (extractLocalizationKeys env (''t('' @ [q] @ k @ [q'] @ '')'') w)) = [k]
        \<and> (\<not> prefix '')'' k \<longrightarrow>
             k \<in> set (map key (fst (extractLocalizationKeys env
                        (pre @ ''t('' @ [q] @ k @ [q'] @ '')'' @ post) w)))))
   \<and> (\<forall>e \<in> set (fst (extractLocalizationKeys env code w)). callSiteOf code (key e))"
proof -
  have iq: "isQuote c \<longleftrightarrow> c \<in> {CHR 0x27, CHR 0x22, CHR 0x60}" for c
    by (simp add: isQuote_def)
  have A: "tCallRegex_matchAt (''t('' @ [q] @ k @ [q'] @ rest)
        = (if k \<noteq> [] \<and> prefix '')'' rest then Some (k, length k + 5) else None)
      \<and> tCallRegex_matchAt (''t('' @ [q] @ k) = None"
    if "isQuote q \<and> isQuote q' \<and> (\<forall>c \<in> set k. \<not> isQuote c)"
    using that matchAt_capture[of q q' k rest] matchAt_unterminated[of q k] by blast
  have B: "prefix [k] (map key (fst (extractLocalizationKeys env
                      (''t('' @ [q] @ k @ [q'] @ '')'' @ post) w)))
        \<and> map key (fst (extractLocalizationKeys env (''t('' @ [q] @ k @ [q'] @ '')'') w)) = [k]
        \<and> (\<not> prefix '')'' k \<longrightarrow>
             k \<in> set (map key (fst (extractLocalizationKeys env
                        (pre @ ''t('' @ [q] @ k @ [q'] @ '')'' @ post) w))))"
    if h: "isQuote q \<and> isQuote q' \<and> k \<noteq> [] \<and> (\<forall>c \<in> set k. \<not> isQuote c)"
  proof -
    from h have q: "isQuote q" "isQuote q'" and k: "k \<noteq> []" "\<forall>c \<in> set k. \<not> isQuote c"
      by blast+
    from extract_first_literal(1)[OF q k, of env post w]
      extract_first_literal(2)[OF q k, of "[]" env w]
      callSite_extracted[OF q k, of env pre post w]
    show ?thesis by (simp only: append_Nil2) blast
  qed
  have C: "\<forall>e \<in> set (fst (extractLocalizationKeys env code w)). callSiteOf code (key e)"
    by (intro ballI extracted_key_callSite)
  from A B C show ?thesis unfolding iq[symmetric] by (intro conjI impI) blast+
qed

theorem C8_quoting_styles_witness:
  "tCallRegex_matchAt ''t('save')'' = Some (''save'', 9)
   \<and> tCallRegex_matchAt (''t('' @ [CHR 0x22] @ ''save'' @ [CHR 0x22] @ '')'') = Some (''save'', 9)
   \<and> tCallRegex_matchAt ''t(`save`)'' = Some (''save'', 9)
   \<and> tCallRegex_matchAt (''t('save'' @ [CHR 0x22] @ '')'') = Some (''save'', 9)
   \<and> tCallRegex_matchAt ''t('it's ok')'' = None
   \<and> tCallRegex_matchAt (''t('' @ [CHR 0x22] @ ''don't'' @ [CHR 0x22] @ '')'') = None
   \<and> tCallRegex_matchAt ''t('a')b')'' = Some (''a'', 6)
   \<and> ''save'' \<in> set (map key (fst (extractLocalizationKeys demoEnv
                        ''<p>{t(`save`)}</p>'' freshWorld)))"
proof -
  have 1: "tCallRegex_matchAt ''t('save')'' = Some (''save'', 9)"
    using C8_quoting_styles[where q = "CHR 0x27" and q' = "CHR 0x27" and k = "''save''" and rest = "'')''", THEN conjunct1]
    by code_simp
  have 2: "tCallRegex_matchAt (''t('' @ [CHR 0x22] @ ''save'' @ [CHR 0x22] @ '')'') = Some (''save'', 9)"
    using C8_quoting_styles[where q = "CHR 0x22" and q' = "CHR 0x22" and k = "''save''" and rest = "'')''", THEN conjunct1]
    by code_simp
  have 3: "tCallRegex_matchAt ''t(`save`)'' = Some (''save'', 9)"
    using C8_quoting_styles[where q = "CHR 0x60" and q' = "CHR 0x60" and k = "''save''" and rest = "'')''", THEN conjunct1]
    by code_simp
  have 4: "tCallRegex_matchAt (''t('save'' @ [CHR 0x22] @ '')'') = Some (''save'', 9)"
    using C8_quoting_styles[where q = "CHR 0x27" and q' = "CHR 0x22" and k = "''save''" and rest = "'')''", THEN conjunct1]
    by code_simp
  have 5: "tCallRegex_matchAt ''t('it's ok')'' = None"
    using C8_quoting_styles[where q = "CHR 0x27" and q' = "CHR 0x27" and k = "''it''" and rest = "''s ok')''", THEN conjunct1]
    by code_simp
  have 6: "tCallRegex_matchAt (''t('' @ [CHR 0x22] @ ''don't'' @ [CHR 0x22] @ '')'') = None"
    using C8_quoting_styles[where q = "CHR 0x22" and q' = "CHR 0x27" and k = "''don''"
        and rest = "''t'' @ [CHR 0x22] @ '')''", THEN conjunct1]
    by code_simp
  have 7: "tCallRegex_matchAt ''t('a')b')'' = Some (''a'', 6)"
    using C8_quoting_styles[where q = "CHR 0x27" and q' = "CHR 0x27" and k = "''a''" and rest = "'')b')''", THEN conjunct1]
    by code_simp
  have 8: "''save'' \<in> set (map key (fst (extractLocalizationKeys demoEnv
                        ''<p>{t(`save`)}</p>'' freshWorld)))"
    using C8_quoting_styles[where q = "CHR 0x60" and q' = "CHR 0x60" and k = "''save''"
        and env = demoEnv and pre = "''<p>{''" and post = "''}</p>''" and w = freshWorld,
        THEN conjunct2, THEN conjunct1]
    by code_simp
  from 1 2 3 4 5 6 7 8 show ?thesis by (intro conjI)
qed

text \<open>
  The claim as the specification states it fails for a literal that holds a quote
  character. The call site \<^verbatim>\<open>t("don't")\<close>, written with double quotes, is not
  recognised at all, alone or inside markup: no key is extracted. With a quote character
  of the delimiter's own style, as in \<^verbatim>\<open>t('it's ok')\<close> and in the escaped
  \<^verbatim>\<open>t('it\'s ok')\<close>, the match does not stop at that character with a shorter key:
  there is no match, and no key is extracted.
\<close>

theorem C8_counterexample:
  "fst (extractLocalizationKeys demoEnv (''t('' @ [CHR 0x22] @ ''don't'' @ [CHR 0x22] @ '')'')
          freshWorld) = []
   \<and> fst (extractLocalizationKeys demoEnv
          (''<p>{t('' @ [CHR 0x22] @ ''don't'' @ [CHR 0x22] @ '')}</p>'') freshWorld) = []
   \<and> fst (extractLocalizationKeys demoEnv ''t('it's ok')'' freshWorld) = []
   \<and> fst (extractLocalizationKeys demoEnv (''t('it'' @ [CHR 0x5C] @ '''s ok')'') freshWorld) = []"
  by code_simp


text \<open>
  C10. Every key the extractor returns is non-empty and holds none of the three quote
  characters; a call site with an empty literal is not matched, and the text that
  consists of one yields no reference.
\<close>

theorem C10_keys_nonempty_quote_free:
  "(\<forall>e \<in> set (fst (extractLocalizationKeys env code w)).
      key e \<noteq> [] \<and> (\<forall>c \<in> set (key e). c \<notin> {CHR 0x27, CHR 0x22, CHR 0x60}))
   \<and> (q \<in> {CHR 0x27, CHR 0x22, CHR 0x60} \<and> q' \<in> {CHR 0x27, CHR 0x22, CHR 0x60} \<longrightarrow>
        tCallRegex_matchAt (''t('' @ [q, q'] @ rest) = None
        \<and> fst (extractLocalizationKeys env (''t('' @ [q, q'] @ '')'') w) = [])"
proof -
  have keys: "key e \<noteq> [] \<and> (\<forall>c \<in> set (key e). c \<notin> {CHR 0x27, CHR 0x22, CHR 0x60})"
    if "e \<in> set (fst (extractLocalizationKeys env code w))" for e
  proof -
    from that have "key e \<in> set (map key (fst (extractLocalizationKeys env code w)))" by simp
    then have "key e \<in> set (map snd (tCallMatches code 0))"
      unfolding extractLocalizationKeys_keys firstSeenOrder_set .
    then obtain idx where "(idx, key e) \<in> set (tCallMatches code 0)" by auto
    from tCallMatches_member[OF this] obtain n
      where "tCallRegex_matchAt (drop idx code) = Some (key e, n)" ..
    then have "key e \<noteq> []" "\<forall>c \<in> set (key e). \<not> isQuote c"
      unfolding tCallRegex_matchAt_shape by blast+
    then show ?thesis by (simp add: isQuote_def)
  qed
  have empty: "tCallRegex_matchAt (''t('' @ [q, q'] @ rest) = None
               \<and> fst (extractLocalizationKeys env (''t('' @ [q, q'] @ '')'') w) = []"
    if "q \<in> {CHR 0x27, CHR 0x22, CHR 0x60} \<and> q' \<in> {CHR 0x27, CHR 0x22, CHR 0x60}"
  proof -
    from that have q: "isQuote q" "isQuote q'" by (auto simp: isQuote_def)
    then have none: "tCallRegex_matchAt (''t('' @ [q, q'] @ rest) = None" by simp
    from q have "q \<noteq> CHR ''t''" "q' \<noteq> CHR ''t''" by (auto dest: isQuote_not_t)
    with q have "\<not> hasTCall (''t('' @ [q, q'] @ '')'')" by simp
    then have "fst (extractLocalizationKeys env (''t('' @ [q, q'] @ '')'') w) = []"
      by (simp add: extractLocalizationKeys_def extractLoop_no_call)
    with none show ?thesis by simp
  qed
  from keys empty show ?thesis by blast
qed

theorem C10_keys_nonempty_quote_free_witness:
  "map key (fst (extractLocalizationKeys demoEnv
       (''{t('a b')} {t('' @ [CHR 0x27, CHR 0x27] @ '')} {t(`x.y`)}'') freshWorld))
     = [''a b'', ''x.y'']
   \<and> tCallRegex_matchAt (''t('' @ [CHR 0x27, CHR 0x27] @ '') + t('z')'') = None
   \<and> fst (extractLocalizationKeys demoEnv (''t('' @ [CHR 0x27, CHR 0x27] @ '')'') freshWorld) = []"
  using C10_keys_nonempty_quote_free[of demoEnv
      "''{t('a b')} {t('' @ [CHR 0x27, CHR 0x27] @ '')} {t(`x.y`)}''" freshWorld
      "CHR 0x27" "CHR 0x27" "'') + t('z')''"]
  by code_simp

text \<open>
  C1, as the code has it. When the call to the translation service fails (the request
  is rejected, the response is not \<open>ok\<close>, or its body does not parse), every extracted
  text keeps \<open>translations\<close> unset, with the key as its \<open>text\<close>; no record is
  written: the rows of the database are the rows it had, or, when it was still closed,
  the rows it has once opened; \<open>savedKeys\<close> holds the extracted keys that have a record
  and no other. The orchestrator is a total function: it returns.
\<close>

theorem C1_translation_failure:
  assumes "\<forall>req. translationFails (fetch env req)"
  shows "(\<forall>e \<in> set (extractedTexts (fst (processComponentWithTranslations env code componentId w))).
            translations' e = None \<and> text' e = key e)
       \<and> savedKeys (fst (processComponentWithTranslations env code componentId w))
           = filter (\<lambda>k. k \<in> keysOf (snd (processComponentWithTranslations env code componentId w)))
               (map key (extractedTexts (fst (processComponentWithTranslations env code componentId w))))
       \<and> (rowsOf (snd (processComponentWithTranslations env code componentId w)) = rowsOf w
          \<or> db w = None
            \<and> rowsOf (snd (processComponentWithTranslations env code componentId w))
                = rowsOf (snd (initializeDatabase env w)))"
proof -
  let ?xs = "fst (extractLocalizationKeys env code w)"
  let ?wa = "snd (extractLocalizationKeys env code w)"
  let ?run = "processLoop env componentId ?xs [] ?wa"
  have loop: "\<forall>e \<in> set (extractLoop code 0 {} []). translations' e = None \<and> text' e = key e"
    by (rule extractLoop_plain) simp
  have xs: "?xs = extractLoop code 0 {} []"
    using assms translateKeys_fails[of env "extractLoop code 0 {} []" w]
    by (simp add: extractLocalizationKeys_def Let_def)
  from loop xs have plain: "\<forall>e \<in> set ?xs. translations' e = None \<and> text' e = key e" by simp
  have saved: "fst ?run = filter (\<lambda>k. k \<in> keysOf (snd ?run)) (map key ?xs)"
    using processLoop_saved[of ?xs env componentId "[]" ?wa] extract_distinct[of env code w]
    by simp
  have rows: "rowsOf (snd ?run) = rowsOf w
              \<or> db w = None \<and> rowsOf (snd ?run) = rowsOf (snd (initializeDatabase env w))"
  proof (cases "?xs = []")
    case True
    with extract_world_empty[OF True] show ?thesis by simp
  next
    case False
    then obtain e rest where er: "?xs = e # rest" by (cases ?xs) auto
    have dbwa: "db ?wa = db w" by (rule extract_world)
    have wa: "?wa = w\<lparr>requests := requests w @ [map (\<lambda>e. (key e, context' e)) (extractLoop code 0 {} [])]\<rparr>"
      using False xs by (simp add: extractLocalizationKeys_def Let_def translateKeys_world)
    show ?thesis
    proof (cases "settled env ?wa")
      case True
      from processLoop_nothing_new[OF True, of ?xs componentId "[]"] plain
      have "snd ?run = ?wa" by simp
      with dbwa show ?thesis by (simp add: rowsOf_def)
    next
      case False
      with dbwa have none: "db ?wa = None" and up: "sqlJsLoads env" by (simp_all add: settled_def)
      let ?wo = "snd (initializeDatabase env ?wa)"
      from initializeDatabase_up[OF none up] have "settled env ?wo" by (simp add: settled_def)
      from processLoop_nothing_new[OF this, of ?xs componentId "[]"] plain
      have "processLoop env componentId ?xs [] ?wo = (filter (\<lambda>k. k \<in> keysOf ?wo) (map key ?xs), ?wo)"
        by simp
      with processLoop_opens[OF none up, of componentId e rest "[]"] er
      have "snd ?run = ?wo" by simp
      moreover have "db ?wo = db (snd (initializeDatabase env w))"
        unfolding wa by (rule initializeDatabase_frame)
      ultimately show ?thesis using none dbwa by (simp add: rowsOf_def)
    qed
  qed
  from plain saved rows show ?thesis unfolding orchestrator_unfold by simp
qed

theorem C1_translation_failure_witness:
  "map key (extractedTexts (fst (processComponentWithTranslations demoEnv
       ''<button>{t('save_document')}</button><p>{t('hello')}</p>'' ''c1'' freshWorld)))
     = [''save_document'', ''hello'']
   \<and> savedKeys (fst (processComponentWithTranslations demoEnv
       ''<button>{t('save_document')}</button><p>{t('hello')}</p>'' ''c1'' freshWorld))
     = [''save_document'']"
proof -
  let ?code = "''<button>{t('save_document')}</button><p>{t('hello')}</p>''"
  let ?P = "processComponentWithTranslations demoEnv ?code ''c1'' freshWorld"
  have f: "\<forall>req. translationFails (fetch demoEnv req)" by (simp add: demoEnv_def)
  note c1 = C1_translation_failure[OF f, of ?code "''c1''" freshWorld]
  have k: "map key (extractedTexts (fst ?P)) = [''save_document'', ''hello'']" by code_simp
  have "filter (\<lambda>k. k \<in> keysOf (snd ?P)) [''save_document'', ''hello''] = [''save_document'']"
    by code_simp
  with c1 k show ?thesis by simp
qed

text \<open>
  The claim as the specification states it fails: with the service down, the new key
  \<open>hello\<close> gets no record at all, and is not in \<open>savedKeys\<close>.
\<close>

theorem C1_counterexample:
  "map key (extractedTexts (fst (processComponentWithTranslations demoEnv
       ''<p>{t('hello')}</p>'' ''c1'' freshWorld))) = [''hello'']
   \<and> \<not> (\<exists>r \<in> set (rowsOf (snd (processComponentWithTranslations demoEnv
       ''<p>{t('hello')}</p>'' ''c1'' freshWorld))). entry_key r = ''hello'')
   \<and> savedKeys (fst (processComponentWithTranslations demoEnv
       ''<p>{t('hello')}</p>'' ''c1'' freshWorld)) = []"
  by code_simp

text \<open>
  C6, as the code has it. Run the orchestrator twice on the same source text, the second
  run starting in the state the first one left; the component ids, the clocks and the
  behaviour of \<open>localStorage\<close> may differ between the runs. Suppose that the
  translation service answers the request of the second run as it answered that of the
  first, that the first run saved every key for which translations came back (no insert
  failed), and that the database is open after the first run or cannot be opened in the
  second run either. Then the second run returns the same \<open>savedKeys\<close> and the same
  extracted texts, and leaves the database and its saved copy as the first run left
  them: for every key, as many records after the second run as after the first.
\<close>

theorem C6_second_run:
  assumes r1: "processComponentWithTranslations env1 code id1 w = (res1, w1)"
    and r2: "processComponentWithTranslations env2 code id2 w1 = (res2, w2)"
    and service: "fetch env2 (requestFor code) = fetch env1 (requestFor code)"
    and saved: "\<forall>e \<in> set (extractedTexts res1). translations' e \<noteq> None \<longrightarrow> key e \<in> set (savedKeys res1)"
    and opened: "db w1 \<noteq> None \<or> \<not> sqlJsLoads env2"
  shows "savedKeys res2 = savedKeys res1 \<and> extractedTexts res2 = extractedTexts res1
         \<and> db w2 = db w1 \<and> localStorage w2 = localStorage w1
         \<and> (\<forall>k. length (filter (\<lambda>r. entry_key r = k) (rowsOf w2))
                = length (filter (\<lambda>r. entry_key r = k) (rowsOf w1)))"
proof -
  let ?xs = "fst (extractLocalizationKeys env1 code w)"
  let ?wa = "snd (extractLocalizationKeys env1 code w)"
  let ?wb = "snd (extractLocalizationKeys env2 code w1)"
  have xs2: "fst (extractLocalizationKeys env2 code w1) = ?xs" by (rule extract_service[OF service])
  from r1 have e1: "extractedTexts res1 = ?xs" and s1: "savedKeys res1 = fst (processLoop env1 id1 ?xs [] ?wa)"
    and w1: "w1 = snd (processLoop env1 id1 ?xs [] ?wa)"
    unfolding orchestrator_unfold by auto
  from r2 have e2: "extractedTexts res2 = ?xs" and s2: "savedKeys res2 = fst (processLoop env2 id2 ?xs [] ?wb)"
    and w2: "w2 = snd (processLoop env2 id2 ?xs [] ?wb)"
    unfolding orchestrator_unfold xs2 by auto
  have dbb: "db ?wb = db w1" and lsb: "localStorage ?wb = localStorage w1"
    by (rule extract_world)+
  have run2: "processLoop env2 id2 ?xs [] ?wb = (savedKeys res1, ?wb)"
  proof (cases "?xs = []")
    case True
    with s1 show ?thesis by simp
  next
    case False
    from opened dbb have st: "settled env2 ?wb" by (simp add: settled_def)
    have sk: "savedKeys res1 = filter (\<lambda>k. k \<in> keysOf w1) (map key ?xs)"
      unfolding s1 w1 using processLoop_saved[of ?xs env1 id1 "[]" ?wa]
        extract_distinct[of env1 code w] by simp
    have kb: "keysOf ?wb = keysOf w1" by (rule keysOf_cong[OF dbb])
    have "\<forall>e \<in> set ?xs. key e \<in> keysOf ?wb \<or> translations' e = None"
    proof
      fix e assume e: "e \<in> set ?xs"
      show "key e \<in> keysOf ?wb \<or> translations' e = None"
      proof (cases "translations' e")
        case None
        then show ?thesis by simp
      next
        case (Some tr)
        with saved e e1 have "key e \<in> set (savedKeys res1)" by simp
        then have "key e \<in> keysOf w1" unfolding sk by simp
        then show ?thesis unfolding kb by simp
      qed
    qed
    from processLoop_nothing_new[OF st this, of id2 "[]"] sk kb show ?thesis by simp
  qed
  from run2 s2 w2 dbb lsb e1 e2 show ?thesis by (simp add: rowsOf_def)
qed

theorem C6_second_run_witness:
  "savedKeys (fst (processComponentWithTranslations upEnv ''<p>{t('hello')}</p>'' ''c1'' emptyStoreWorld))
     = [''hello'']
   \<and> savedKeys (fst (processComponentWithTranslations sameMsEnv ''<p>{t('hello')}</p>'' ''c2''
        (snd (processComponentWithTranslations upEnv ''<p>{t('hello')}</p>'' ''c1'' emptyStoreWorld))))
     = [''hello'']"
proof -
  let ?code = "''<p>{t('hello')}</p>''"
  let ?P1 = "processComponentWithTranslations upEnv ?code ''c1'' emptyStoreWorld"
  let ?P2 = "processComponentWithTranslations sameMsEnv ?code ''c2'' (snd ?P1)"
  have s1: "savedKeys (fst ?P1) = [''hello'']" by code_simp
  have x1: "map key (extractedTexts (fst ?P1)) = [''hello'']" by code_simp
  have h: "\<forall>e \<in> set (extractedTexts (fst ?P1)). translations' e \<noteq> None \<longrightarrow> key e \<in> set (savedKeys (fst ?P1))"
  proof
    fix e assume "e \<in> set (extractedTexts (fst ?P1))"
    then have "key e \<in> set (map key (extractedTexts (fst ?P1)))" by simp
    then show "translations' e \<noteq> None \<longrightarrow> key e \<in> set (savedKeys (fst ?P1))"
      unfolding x1 s1 by simp
  qed
  have f: "fetch sameMsEnv r = fetch upEnv r" for r by (simp add: sameMsEnv_def)
  have o: "db (snd ?P1) \<noteq> None \<or> \<not> sqlJsLoads sameMsEnv" by code_simp
  from C6_second_run[OF surjective_pairing surjective_pairing f h o] s1 show ?thesis by simp
qed

text \<open>
  The claim as the specification states it fails in each of three ways. The service is
  down during the first run and up during the second: the first run skips the key
  \<open>hello\<close>, the second one creates its record, and the two manifests differ. Or
  \<open>initSqlJs\<close> fails during the first run and loads during the second, the service
  being down both times: the first manifest is empty, the second holds the seeded key
  \<open>save_document\<close>. Or the insert of the first run fails on the id it built, and the
  second run, for another component, succeeds and reports the key.
\<close>

theorem C6_counterexample:
  "savedKeys (fst (processComponentWithTranslations demoEnv ''<p>{t('hello')}</p>'' ''c1''
                     emptyStoreWorld)) = []
   \<and> savedKeys (fst (processComponentWithTranslations upEnv ''<p>{t('hello')}</p>'' ''c1''
        (snd (processComponentWithTranslations demoEnv ''<p>{t('hello')}</p>'' ''c1''
                emptyStoreWorld)))) = [''hello'']
   \<and> length (filter (\<lambda>r. entry_key r = ''hello'')
        (rowsOf (snd (processComponentWithTranslations demoEnv ''<p>{t('hello')}</p>'' ''c1''
                       emptyStoreWorld)))) = 0
   \<and> length (filter (\<lambda>r. entry_key r = ''hello'')
        (rowsOf (snd (processComponentWithTranslations upEnv ''<p>{t('hello')}</p>'' ''c1''
          (snd (processComponentWithTranslations demoEnv ''<p>{t('hello')}</p>'' ''c1''
                  emptyStoreWorld)))))) = 1
   \<and> savedKeys (fst (processComponentWithTranslations noSqlEnv
        ''<button>{t('save_document')}</button>'' ''c1'' freshWorld)) = []
   \<and> savedKeys (fst (processComponentWithTranslations demoEnv
        ''<button>{t('save_document')}</button>'' ''c1''
        (snd (processComponentWithTranslations noSqlEnv
                ''<button>{t('save_document')}</button>'' ''c1'' freshWorld)))) = [''save_document'']
   \<and> savedKeys (fst (processComponentWithTranslations sameMsEnv ''<p>{t('hello')}</p>'' ''c1''
        clashWorld)) = []
   \<and> savedKeys (fst (processComponentWithTranslations sameMsEnv ''<p>{t('hello')}</p>'' ''c2''
        (snd (processComponentWithTranslations sameMsEnv ''<p>{t('hello')}</p>'' ''c1''
                clashWorld)))) = [''hello'']"
  by code_simp







text \<open>
  C5. The two constraints of the table (no two rows with the same id, none with the
  same key) hold at start-up and are kept by every operation on the store: opening the
  database, create, update, delete, \<open>processAndSaveExtractedTexts\<close> and the
  orchestrator; so no key ever has more than one record. A create for a key that has a
  record fails and changes nothing. A run of the orchestrator leaves every row it found
  as it was and only appends rows, whose keys had no record before.
\<close>

theorem C5_one_record_per_key:
  "(storeOk w \<longrightarrow>
      storeOk (snd (initializeDatabase env w))
      \<and> storeOk (snd (createLocalization env entry w))
      \<and> storeOk (snd (updateLocalization env i field v w))
      \<and> storeOk (snd (deleteLocalization env i w))
      \<and> storeOk (snd (processAndSaveExtractedTexts env xs componentId w))
      \<and> storeOk (snd (processComponentWithTranslations env code componentId w))
      \<and> (\<forall>k. length (filter (\<lambda>r. entry_key r = k)
                 (rowsOf (snd (processComponentWithTranslations env code componentId w)))) \<le> 1))
   \<and> (db w = Some d \<longrightarrow>
        (entry_key entry \<in> entry_key ` set (localizations d) \<longrightarrow>
           createLocalization env entry w = (Inl ConstraintFailed, w))
        \<and> (\<exists>new. rowsOf (snd (processComponentWithTranslations env code componentId w))
                    = localizations d @ new
                 \<and> (storeOk w \<longrightarrow> (\<forall>r \<in> set new. entry_key r \<notin> entry_key ` set (localizations d)))))
   \<and> storeOk freshWorld"
proof -
  have inv: "storeOk (snd (initializeDatabase env w))
      \<and> storeOk (snd (createLocalization env entry w))
      \<and> storeOk (snd (updateLocalization env i field v w))
      \<and> storeOk (snd (deleteLocalization env i w))
      \<and> storeOk (snd (processAndSaveExtractedTexts env xs componentId w))
      \<and> storeOk (snd (processComponentWithTranslations env code componentId w))
      \<and> (\<forall>k. length (filter (\<lambda>r. entry_key r = k)
                 (rowsOf (snd (processComponentWithTranslations env code componentId w)))) \<le> 1)"
    if ok: "storeOk w"
    using initializeDatabase_storeOk[OF ok] createLocalization_storeOk[OF ok]
      updateLocalization_storeOk[OF ok] deleteLocalization_storeOk[OF ok]
      processLoop_storeOk[OF ok] orchestrator_storeOk[OF ok]
      storeOk_count[OF orchestrator_storeOk[OF ok]]
    by (simp add: processAndSaveExtractedTexts_def)
  have rows: "(entry_key entry \<in> entry_key ` set (localizations d) \<longrightarrow>
           createLocalization env entry w = (Inl ConstraintFailed, w))
        \<and> (\<exists>new. rowsOf (snd (processComponentWithTranslations env code componentId w))
                    = localizations d @ new
                 \<and> (storeOk w \<longrightarrow> (\<forall>r \<in> set new. entry_key r \<notin> entry_key ` set (localizations d))))"
    if d: "db w = Some d"
  proof -
    let ?w' = "snd (processComponentWithTranslations env code componentId w)"
    from orchestrator_rows[OF d, of env code componentId] obtain d' new where
      d': "db ?w' = Some d'" and new: "localizations d' = localizations d @ new"
      by (auto simp: prefix_def)
    have "\<forall>r \<in> set new. entry_key r \<notin> entry_key ` set (localizations d)" if ok: "storeOk w"
    proof -
      from storeOk_db[OF orchestrator_storeOk[OF ok] d']
      have "distinct (map entry_key (localizations d @ new))"
        unfolding new[symmetric] by (simp add: tableOk_def)
      then show ?thesis by auto
    qed
    moreover have "rowsOf ?w' = localizations d @ new" using d' new by (simp add: rowsOf_def)
    moreover have "createLocalization env entry w = (Inl ConstraintFailed, w)"
      if "entry_key entry \<in> entry_key ` set (localizations d)"
      using that d by (simp add: createLocalization_def openDb_open sqlInsert_def)
    ultimately show ?thesis by blast
  qed
  have fresh: "storeOk freshWorld" by (simp add: storeOk_def freshWorld_def)
  from inv rows fresh show ?thesis by blast
qed

theorem C5_one_record_per_key_witness:
  "storeOk freshWorld
   \<and> storeOk (snd (processComponentWithTranslations upEnv ''<p>{t('hello')}</p>'' ''c1'' freshWorld))
   \<and> storeOk (snd (updateLocalization upEnv ''1'' ''key'' ''button.submit''
        (snd (initializeDatabase upEnv freshWorld))))
   \<and> createLocalization upEnv
        \<lparr>en = ''A'', es = ''B'', fr = ''C'', de = ''D'', ja = ''E'', zh = ''F'',
         entry_id = ''new'', entry_key = ''greeting''\<rparr> clashWorld
      = (Inl ConstraintFailed, clashWorld)"
proof -
  let ?e = "\<lparr>en = ''A'', es = ''B'', fr = ''C'', de = ''D'', ja = ''E'', zh = ''F'',
         entry_id = ''new'', entry_key = ''greeting''\<rparr>"
  let ?d = "\<lparr>localizations =
                   [\<lparr>en = ''Hi'', es = ''Hola'', fr = ''Salut'', de = ''Hallo'', ja = ''Yaa'',
                     zh = ''Hai'', entry_id = ''c1_hello_1000'', entry_key = ''greeting''\<rparr>],
                 components = Some True\<rparr>"
  have f: "storeOk freshWorld"
    using C5_one_record_per_key[of freshWorld upEnv] by blast
  with C5_one_record_per_key[of freshWorld upEnv _ _ _ _ _ "''c1''" "''<p>{t('hello')}</p>''"]
  have a: "storeOk (snd (processComponentWithTranslations upEnv ''<p>{t('hello')}</p>'' ''c1'' freshWorld))"
    by blast
  from f C5_one_record_per_key[of freshWorld upEnv] have "storeOk (snd (initializeDatabase upEnv freshWorld))"
    by blast
  with C5_one_record_per_key[of "snd (initializeDatabase upEnv freshWorld)" upEnv _ "''1''" "''key''" "''button.submit''"]
  have b: "storeOk (snd (updateLocalization upEnv ''1'' ''key'' ''button.submit''
        (snd (initializeDatabase upEnv freshWorld))))" by blast
  have d: "db clashWorld = Some ?d" by (simp add: clashWorld_def)
  have k: "entry_key ?e \<in> entry_key ` set (localizations ?d)" by simp
  with d C5_one_record_per_key[of clashWorld upEnv ?e _ _ _ _ _ _ ?d]
  have c: "createLocalization upEnv ?e clashWorld = (Inl ConstraintFailed, clashWorld)" by blast
  from f a b c show ?thesis by blast
qed

text \<open>
  C3, as the code has it. With the database open, \<open>getTranslations\<close> returns, for a
  locale of the fixed set, the map from the keys of the table to their texts in that
  locale (every key but \<^verbatim>\<open>__proto__\<close>, which a plain object does not take as a
  property), and fails with \<open>InvalidLocale\<close> for any other locale, the state
  untouched; \<open>updateLocalization\<close> fails with \<open>InvalidField\<close> for every field
  outside its fixed set, the state untouched. In any state, a locale or a field outside
  the set gives an error and never reaches the query or the update: the state afterwards
  is the one that opening the database leaves. The opening itself comes before the
  validation.
\<close>

theorem C3_validation:
  "(db w = Some d \<longrightarrow>
      (locale \<in> set validLocales \<longrightarrow>
         (\<exists>m. getTranslations env locale w = (Inr m, w)
              \<and> dom m = entry_key ` set (localizations d) - {''__proto__''}
              \<and> (distinct (map entry_key (localizations d)) \<longrightarrow>
                   (\<forall>r \<in> set (localizations d).
                      entry_key r \<noteq> ''__proto__'' \<longrightarrow> m (entry_key r) = Some (getField locale r)))))
      \<and> (locale \<notin> set validLocales \<longrightarrow>
           getTranslations env locale w = (Inl (InvalidLocale locale), w))
      \<and> (field \<notin> set validFields \<longrightarrow>
           updateLocalization env i field v w = (Inl (InvalidField field), w)))
   \<and> (locale \<notin> set validLocales \<longrightarrow>
        (\<exists>e. fst (getTranslations env locale w) = Inl e)
        \<and> snd (getTranslations env locale w) = snd (openDb env w))
   \<and> (field \<notin> set validFields \<longrightarrow>
        (\<exists>e. fst (updateLocalization env i field v w) = Inl e)
        \<and> snd (updateLocalization env i field v w) = snd (openDb env w))
   \<and> set validLocales = {''en'', ''es'', ''fr'', ''de'', ''ja'', ''zh''}
   \<and> set validFields = {''key'', ''en'', ''es'', ''fr'', ''de'', ''ja'', ''zh''}"
proof -
  have A: "\<exists>m. getTranslations env locale w = (Inr m, w)
              \<and> dom m = entry_key ` set (localizations d) - {''__proto__''}
              \<and> (distinct (map entry_key (localizations d)) \<longrightarrow>
                   (\<forall>r \<in> set (localizations d).
                      entry_key r \<noteq> ''__proto__'' \<longrightarrow> m (entry_key r) = Some (getField locale r)))"
    if d: "db w = Some d" and v: "locale \<in> set validLocales"
  proof -
    let ?rows = "map (\<lambda>r. (entry_key r, getField locale r)) (localizations d)"
    let ?m = "foldl (\<lambda>acc row. objectAssign acc (fst row) (snd row)) Map.empty ?rows"
    have fst_rows: "map fst ?rows = map entry_key (localizations d)" by (simp add: comp_def)
    have dom: "dom ?m = entry_key ` set (localizations d) - {''__proto__''}"
      unfolding foldl_assign_dom by (simp add: image_image)
    have look: "?m (entry_key r) = Some (getField locale r)"
      if "distinct (map entry_key (localizations d))" "r \<in> set (localizations d)"
        "entry_key r \<noteq> ''__proto__''" for r
    proof -
      from that(2) have mem: "(entry_key r, getField locale r) \<in> set ?rows" by auto
      have dist: "distinct (map fst ?rows)" unfolding fst_rows by (rule that(1))
      show ?thesis by (rule foldl_assign_lookup[OF dist mem that(3)])
    qed
    from getTranslations_open[OF d v, of env] dom look show ?thesis by blast
  qed
  have B: "getTranslations env locale w = (Inl (InvalidLocale locale), w)"
    if "db w = Some d" "locale \<notin> set validLocales"
    using that by (simp add: getTranslations_def openDb_open)
  have C: "updateLocalization env i field v w = (Inl (InvalidField field), w)"
    if "db w = Some d" "field \<notin> set validFields"
    using that by (simp add: updateLocalization_def openDb_open)
  have D: "(\<exists>e. fst (getTranslations env locale w) = Inl e)
        \<and> snd (getTranslations env locale w) = snd (openDb env w)"
    if "locale \<notin> set validLocales"
    using that by (cases "openDb env w"; cases "fst (openDb env w)") (auto simp: getTranslations_def)
  have E: "(\<exists>e. fst (updateLocalization env i field v w) = Inl e)
        \<and> snd (updateLocalization env i field v w) = snd (openDb env w)"
    if "field \<notin> set validFields"
    using that by (cases "openDb env w"; cases "fst (openDb env w)") (auto simp: updateLocalization_def)
  have F: "set validLocales = {''en'', ''es'', ''fr'', ''de'', ''ja'', ''zh''}"
    by (simp add: validLocales_def)
  have G: "set validFields = {''key'', ''en'', ''es'', ''fr'', ''de'', ''ja'', ''zh''}"
    by (simp add: validFields_def)
  from A B C D E F G show ?thesis by blast
qed

theorem C3_validation_witness:
  "getTranslations demoEnv ''xx'' clashWorld = (Inl (InvalidLocale ''xx''), clashWorld)
   \<and> updateLocalization demoEnv ''c1_hello_1000'' ''id'' ''x'' clashWorld
       = (Inl (InvalidField ''id''), clashWorld)
   \<and> (\<exists>m. getTranslations demoEnv ''es'' clashWorld = (Inr m, clashWorld)
            \<and> m ''greeting'' = Some ''Hola'')
   \<and> (\<exists>m. getTranslations demoEnv ''en'' protoWorld = (Inr m, protoWorld)
            \<and> m ''__proto__'' = None \<and> m ''greeting'' = Some ''Hi'')"
proof -
  let ?r = "\<lparr>en = ''Hi'', es = ''Hola'', fr = ''Salut'', de = ''Hallo'', ja = ''Yaa'',
             zh = ''Hai'', entry_id = ''c1_hello_1000'', entry_key = ''greeting''\<rparr>"
  let ?d = "\<lparr>localizations = [?r], components = Some True\<rparr>"
  have d: "db clashWorld = Some ?d" by (simp add: clashWorld_def)
  have xx: "''xx'' \<notin> set validLocales" by (simp add: validLocales_def)
  have es: "''es'' \<in> set validLocales" by (simp add: validLocales_def)
  have idf: "''id'' \<notin> set validFields" by (simp add: validFields_def)
  note c = C3_validation[of clashWorld ?d "''xx''" demoEnv "''id''" "''c1_hello_1000''" "''x''",
      THEN conjunct1, THEN mp, OF d]
  note 1 = c[THEN conjunct2, THEN conjunct1, THEN mp, OF xx]
  note 2 = c[THEN conjunct2, THEN conjunct2, THEN mp, OF idf]
  note c' = C3_validation[of clashWorld ?d "''es''" demoEnv "''id''" "''c1_hello_1000''" "''x''",
      THEN conjunct1, THEN mp, OF d, THEN conjunct1, THEN mp, OF es]
  from c' obtain m where m: "getTranslations demoEnv ''es'' clashWorld = (Inr m, clashWorld)
      \<and> dom m = entry_key ` set (localizations ?d) - {''__proto__''}
      \<and> (distinct (map entry_key (localizations ?d)) \<longrightarrow>
          (\<forall>r \<in> set (localizations ?d).
             entry_key r \<noteq> ''__proto__'' \<longrightarrow> m (entry_key r) = Some (getField ''es'' r)))" ..
  have dist: "distinct (map entry_key (localizations ?d))" by simp
  have mem: "?r \<in> set (localizations ?d)" by simp
  have np: "entry_key ?r \<noteq> ''__proto__''" by simp
  from m[THEN conjunct2, THEN conjunct2, THEN mp, OF dist, THEN bspec, OF mem, THEN mp, OF np]
  have "m ''greeting'' = Some ''Hola''" by (simp add: getField_def)
  with m[THEN conjunct1] have 3: "\<exists>m. getTranslations demoEnv ''es'' clashWorld = (Inr m, clashWorld)
            \<and> m ''greeting'' = Some ''Hola''" by (intro exI[of _ m] conjI)
  let ?p1 = "\<lparr>en = ''Hi'', es = ''Hola'', fr = ''Salut'', de = ''Hallo'', ja = ''Yaa'',
                     zh = ''Hai'', entry_id = ''1'', entry_key = ''greeting''\<rparr>"
  let ?p2 = "\<lparr>en = ''Proto'', es = ''Proto'', fr = ''Proto'', de = ''Proto'',
                     ja = ''Proto'', zh = ''Proto'', entry_id = ''2'',
                     entry_key = ''__proto__''\<rparr>"
  let ?pd = "\<lparr>localizations = [?p1, ?p2], components = Some True\<rparr>"
  have pd: "db protoWorld = Some ?pd" by (simp add: protoWorld_def)
  have en: "''en'' \<in> set validLocales" by (simp add: validLocales_def)
  note pc = C3_validation[of protoWorld ?pd "''en''" demoEnv "''id''" "''1''" "''x''",
      THEN conjunct1, THEN mp, OF pd, THEN conjunct1, THEN mp, OF en]
  from pc obtain pm where pm: "getTranslations demoEnv ''en'' protoWorld = (Inr pm, protoWorld)
      \<and> dom pm = entry_key ` set (localizations ?pd) - {''__proto__''}
      \<and> (distinct (map entry_key (localizations ?pd)) \<longrightarrow>
          (\<forall>r \<in> set (localizations ?pd).
             entry_key r \<noteq> ''__proto__'' \<longrightarrow> pm (entry_key r) = Some (getField ''en'' r)))" ..
  have pdist: "distinct (map entry_key (localizations ?pd))" by simp
  have pmem: "?p1 \<in> set (localizations ?pd)" by simp
  have pnp: "entry_key ?p1 \<noteq> ''__proto__''" by simp
  from pm[THEN conjunct2, THEN conjunct2, THEN mp, OF pdist, THEN bspec, OF pmem, THEN mp, OF pnp]
  have pg: "pm ''greeting'' = Some ''Hi''" by (simp add: getField_def)
  from pm[THEN conjunct2, THEN conjunct1] have "''__proto__'' \<notin> dom pm" by simp
  then have pp: "pm ''__proto__'' = None" by (simp add: domIff)
  from pm[THEN conjunct1] pp pg
  have 4: "\<exists>m. getTranslations demoEnv ''en'' protoWorld = (Inr m, protoWorld)
            \<and> m ''__proto__'' = None \<and> m ''greeting'' = Some ''Hi''"
    by (intro exI[of _ pm] conjI)
  from 1 2 3 4 show ?thesis by (intro conjI)
qed

text \<open>
  The claim as the specification states it fails while the database is still closed:
  the rejection of locale \<open>xx\<close> comes after the database has been created, seeded and
  written to \<open>localStorage\<close>; where \<open>initSqlJs\<close> fails, the error is that failure,
  for a valid locale too; a rejected field is likewise preceded by those writes.
\<close>

theorem C3_counterexample:
  "(case fst (getTranslations demoEnv ''xx'' freshWorld) of
      Inl e \<Rightarrow> e = InvalidLocale ''xx'' | Inr m \<Rightarrow> False)
   \<and> rowsOf freshWorld = []
   \<and> map entry_key (rowsOf (snd (getTranslations demoEnv ''xx'' freshWorld)))
       = map entry_key initialData
   \<and> (case localStorage (snd (getTranslations demoEnv ''xx'' freshWorld)) of
         None \<Rightarrow> False
       | Some d \<Rightarrow> map entry_key (localizations d) = map entry_key initialData)
   \<and> (case fst (getTranslations noSqlEnv ''en'' freshWorld) of
         Inl e \<Rightarrow> e = SqlJsUnavailable | Inr m \<Rightarrow> False)
   \<and> fst (updateLocalization demoEnv ''1'' ''bogus'' ''v'' freshWorld) = Inl (InvalidField ''bogus'')
   \<and> (case localStorage (snd (updateLocalization demoEnv ''1'' ''bogus'' ''v'' freshWorld)) of
         None \<Rightarrow> False
       | Some d \<Rightarrow> map entry_key (localizations d) = map entry_key initialData)"
  by code_simp

end
